theory Spec2Isabelle
  imports Main
begin

section \<open>Strings and buffers of the host language\<close>

text \<open>
  A string of the host language is written as the list of the bytes of its UTF-8
  encoding, one character for a byte; for the ASCII text of the device's protocol a
  character of the model is a character of the string. \<open>LF\<close> is the newline character
  and \<open>CR\<close> the carriage return. \<open>startsWith\<close>, \<open>indexOf\<close>, \<open>substring\<close> and the global
  replacement of a character by nothing are the string methods the controller service
  calls. \<open>indexOf\<close> answers the position of the first occurrence, and \<open>-1\<close> when there is
  none; \<open>substring(0, i)\<close> is \<open>take i\<close> and \<open>substring(i)\<close> is \<open>drop i\<close>. The service
  looks for ASCII strings only and cuts only at a newline it found, and an ASCII byte
  stands in a UTF-8 encoding only for itself: on the encoding these methods find and cut
  what they find and cut on the string.
\<close>

definition LF :: char where
  "LF = CHR 0x0A"

definition CR :: char where
  "CR = CHR 0x0D"

definition startsWith :: "string \<Rightarrow> string \<Rightarrow> bool" where
  "startsWith s p = (take (length p) s = p)"

fun indexOf_from :: "string \<Rightarrow> string \<Rightarrow> nat \<Rightarrow> int" where
  "indexOf_from [] p i = (if p = [] then int i else - 1)"
| "indexOf_from (c # cs) p i =
     (if startsWith (c # cs) p then int i else indexOf_from cs p (Suc i))"

definition indexOf :: "string \<Rightarrow> string \<Rightarrow> int" where
  "indexOf s p = indexOf_from s p 0"

definition remove_CR :: "string \<Rightarrow> string" where
  "remove_CR s = filter (\<lambda>c. c \<noteq> CR) s"

text \<open>\<open>occurs_at s p i\<close>: the string \<open>p\<close> stands in \<open>s\<close> at position \<open>i\<close>.\<close>

definition occurs_at :: "string \<Rightarrow> string \<Rightarrow> nat \<Rightarrow> bool" where
  "occurs_at s p i = (i + length p \<le> length s \<and> take (length p) (drop i s) = p)"

definition first_occurrence :: "string \<Rightarrow> string \<Rightarrow> nat \<Rightarrow> bool" where
  "first_occurrence s p i = (occurs_at s p i \<and> (\<forall>j \<in> {0..<i}. \<not> occurs_at s p j))"

definition contains_at_positive :: "string \<Rightarrow> string \<Rightarrow> bool" where
  "contains_at_positive s p = (\<exists>i \<in> {1..length s}. occurs_at s p i)"

subsection \<open>Buffers\<close>

text \<open>
  A \<open>Buffer\<close> of Node.js is a list of bytes. \<open>Buffer.from\<close> of a string is its UTF-8
  encoding, which is how the model writes a string, and \<open>Buffer.from\<close> of an array of bytes
  holds these bytes. \<open>toString\<close> decodes a buffer as UTF-8 the way the Encoding Standard
  lays down: a well-formed sequence of one to four bytes is the character it encodes, and
  in the place of bytes that are no part of a well-formed sequence stands the replacement
  character U+FFFD, whose encoding is the three bytes \<open>EF BF BD\<close>. The decoder reads the
  bytes in turn; \<open>needed\<close> is the number of continuation bytes the sequence at hand still
  lacks, \<open>lower\<close> and \<open>upper\<close> bound the next continuation byte, and \<open>seen\<close> holds the bytes
  of the sequence so far. A byte that cannot continue the sequence at hand ends it with a
  replacement character and is read again as the start of a new sequence; a sequence
  still open at the end of the buffer is replaced as well.
\<close>

type_synonym Buffer = string

definition Buffer_from :: "string \<Rightarrow> Buffer" where
  "Buffer_from text = text"

definition replacement_character :: string where
  "replacement_character = [CHR 0xEF, CHR 0xBF, CHR 0xBD]"

function utf8_decode :: "nat \<Rightarrow> nat \<Rightarrow> nat \<Rightarrow> string \<Rightarrow> Buffer \<Rightarrow> string" where
  "utf8_decode needed lower upper seen [] = (if needed = 0 then [] else replacement_character)"
| "utf8_decode needed lower upper seen (b # bs) =
     (let n = (of_char b :: nat) in
      if needed = 0 then
        (if n \<le> 0x7F then b # utf8_decode 0 0x80 0xBF [] bs
         else if 0xC2 \<le> n \<and> n \<le> 0xDF then utf8_decode 1 0x80 0xBF [b] bs
         else if 0xE0 \<le> n \<and> n \<le> 0xEF then
           utf8_decode 2 (if n = 0xE0 then 0xA0 else 0x80) (if n = 0xED then 0x9F else 0xBF) [b] bs
         else if 0xF0 \<le> n \<and> n \<le> 0xF4 then
           utf8_decode 3 (if n = 0xF0 then 0x90 else 0x80) (if n = 0xF4 then 0x8F else 0xBF) [b] bs
         else replacement_character @ utf8_decode 0 0x80 0xBF [] bs)
      else if n < lower \<or> upper < n then
        replacement_character @ utf8_decode 0 0x80 0xBF [] (b # bs)
      else if needed = 1 then seen @ [b] @ utf8_decode 0 0x80 0xBF [] bs
      else utf8_decode (needed - 1) 0x80 0xBF (seen @ [b]) bs)"
  by pat_completeness auto
termination
  by (relation "measure (\<lambda>(needed, lower, upper, seen, bs).
        2 * length bs + (if needed = 0 then 0 else 1))") auto

definition toString :: "Buffer \<Rightarrow> string" where
  "toString data = utf8_decode 0 0x80 0xBF [] data"

text \<open>A buffer of ASCII bytes, the bytes below 128.\<close>

definition ascii :: "Buffer \<Rightarrow> bool" where
  "ascii data = (\<forall>b \<in> set data. (of_char b :: nat) < 128)"

section \<open>The welcome banner\<close>

text \<open>
  \<open>isWelcomeString\<close> takes a string or \<open>undefined\<close> (\<open>None\<close>). Its result is used as a
  condition, so the model returns its truth value: \<open>undefined\<close> and the empty string are
  both false.
\<close>

definition isWelcomeString :: "string option \<Rightarrow> bool" where
  "isWelcomeString response =
     (case response of
        None \<Rightarrow> False
      | Some r \<Rightarrow>
          r \<noteq> [] \<and>
          (startsWith r ''GrblHAL '' \<or> startsWith r ''Grbl '' \<or> indexOf r '' [FluidNC v'' > 0))"

text \<open>The grammar of the welcome banner as the specification words it.\<close>

definition welcome_grammar :: "string \<Rightarrow> bool" where
  "welcome_grammar line =
     (line \<noteq> [] \<and>
      (startsWith line ''GrblHAL '' \<or> startsWith line ''Grbl '' \<or>
       contains_at_positive line '' [FluidNC v''))"

section \<open>Commands\<close>

text \<open>
  Modelled from the spec: the enumeration \<open>CommandState\<close> and the class \<open>Command\<close> of
  \<open>commands/Command.ts\<close>, which the controller service imports. A command has the text to
  transmit, a state, the callback \<open>onDone\<close> that \<open>send\<close> installs, and the fields of its
  variant (\<open>variant\<close>, of a type \<open>'v\<close> left open). The controller service compares the
  state with \<open>DONE\<close> only, the state of a command that is complete.

  The callback that \<open>send\<close> installs closes over the promise it creates and over the timer of
  that promise; the model names the closure by the number of the promise, so \<open>onDone\<close> is
  \<open>None\<close> for a command never sent and \<open>Some p\<close> afterwards.
\<close>

datatype CommandState = PENDING | DONE | CANCELLED

record 'v Command =
  command :: string
  state :: CommandState
  onDone :: "nat option"
  variant :: 'v

text \<open>
  The methods of the command variants are parameters of the model. \<open>appendLine\<close> takes the
  state and the variant's fields of the command and the line; it answers the new state,
  the new fields, and whether it called the command's \<open>onDone\<close>. \<open>new_PingCommand\<close> and
  \<open>new_GetStatsCommand\<close> are the objects the two constructors build, and
  \<open>command_getStats\<close> reads the statistics out of a statistics command. The methods are
  taken to return normally.
\<close>

record ('v, 'st) command_classes =
  appendLine :: "CommandState \<Rightarrow> 'v \<Rightarrow> string \<Rightarrow> CommandState \<times> 'v \<times> bool"
  new_PingCommand :: "'v Command"
  new_GetStatsCommand :: "'v Command"
  command_getStats :: "'v Command \<Rightarrow> 'st"

section \<open>The serial port\<close>

text \<open>
  Modelled from the spec: the transport (\<open>utils/serialport/SerialPort.ts\<close>), as far as the
  controller service uses it. \<open>written\<close> lists the buffers handed to \<open>write\<close>, \<open>readers\<close> the
  registered reader callbacks, and \<open>disconnectListeners\<close> counts the listeners registered for
  the disconnect event of the native port.
\<close>

datatype reader = bufferedReader_getReader | this_onData

record SerialPort =
  isOpen :: bool
  written :: "Buffer list"
  readers :: "reader list"
  disconnectListeners :: nat

definition SerialPort_write :: "SerialPort \<Rightarrow> Buffer \<Rightarrow> SerialPort" where
  "SerialPort_write p b = p\<lparr>written := written p @ [b]\<rparr>"

definition addReader :: "SerialPort \<Rightarrow> reader \<Rightarrow> SerialPort" where
  "addReader p r = p\<lparr>readers := readers p @ [r]\<rparr>"

definition removeReader :: "SerialPort \<Rightarrow> reader \<Rightarrow> SerialPort" where
  "removeReader p r = p\<lparr>readers := filter (\<lambda>x. x \<noteq> r) (readers p)\<rparr>"

section \<open>The controller service\<close>

datatype ControllerStatus =
  CONNECTION_LOST | DISCONNECTED | CONNECTING | CONNECTED | UNKNOWN_DEVICE

text \<open>
  What the host runtime keeps for the service: the command objects by reference (\<open>heap\<close>,
  with \<open>nextRef\<close> the next free reference), the promises created so far (\<open>npromises\<close>) and
  how each settled one was settled, in the order of settling (\<open>settled\<close>), the armed timers
  as triples of promise, command and deadline, the clock in milliseconds, and the lines
  \<open>onData\<close> writes to the console (the other diagnostic output of the service is left
  out).
\<close>

datatype outcome = Resolved | Rejected string

type_synonym timer = "nat \<times> nat \<times> nat"

record 'v runtime =
  heap :: "nat \<Rightarrow> 'v Command"
  nextRef :: nat
  npromises :: nat
  settled :: "(nat \<times> outcome) list"
  timers :: "timer list"
  now :: nat
  console :: "string list"

text \<open>
  The fields of the class, on top of the runtime. \<open>commands\<close> holds references to command
  objects; \<open>currentVersion\<close> and \<open>stats\<close> are \<open>None\<close> while undefined; listeners are named by
  numbers.
\<close>

record ('v, 'st) ControllerService = "'v runtime" +
  serialPort :: SerialPort
  buffer :: string
  commands :: "nat list"
  xmodemMode :: bool
  status :: ControllerStatus
  currentVersion :: "string option"
  statusListeners :: "nat list"
  stats :: "'st option"

definition constructor :: "'v runtime \<Rightarrow> SerialPort \<Rightarrow> ('v, 'st) ControllerService" where
  "constructor rt port =
     \<lparr>heap = heap rt, nextRef = nextRef rt, npromises = npromises rt, settled = settled rt,
      timers = timers rt, now = now rt, console = console rt,
      serialPort = port, buffer = [], commands = [], xmodemMode = False,
      status = DISCONNECTED, currentVersion = None, statusListeners = [], stats = None\<rparr>"

subsection \<open>Promises and timers\<close>

definition promise_state :: "('v, 'st) ControllerService \<Rightarrow> nat \<Rightarrow> outcome option" where
  "promise_state s p = map_of (settled s) p"

text \<open>Settling a promise that is already settled does nothing.\<close>

definition settle :: "('v, 'st) ControllerService \<Rightarrow> nat \<Rightarrow> outcome \<Rightarrow> ('v, 'st) ControllerService" where
  "settle s p out =
     (if promise_state s p = None then s\<lparr>settled := settled s @ [(p, out)]\<rparr> else s)"

definition clearTimeout :: "('v, 'st) ControllerService \<Rightarrow> nat \<Rightarrow> ('v, 'st) ControllerService" where
  "clearTimeout s p = s\<lparr>timers := filter (\<lambda>t. fst t \<noteq> p) (timers s)\<rparr>"

definition removeCommand :: "('v, 'st) ControllerService \<Rightarrow> nat \<Rightarrow> ('v, 'st) ControllerService" where
  "removeCommand s cmd = s\<lparr>commands := filter (\<lambda>c. c \<noteq> cmd) (commands s)\<rparr>"

text \<open>The callback \<open>send\<close> installs as \<open>onDone\<close>, for promise \<open>p\<close>.\<close>

definition run_onDone :: "('v, 'st) ControllerService \<Rightarrow> nat option \<Rightarrow> ('v, 'st) ControllerService" where
  "run_onDone s cb = (case cb of None \<Rightarrow> s | Some p \<Rightarrow> settle (clearTimeout s p) p Resolved)"

text \<open>The callback of the timer \<open>send\<close> arms.\<close>

definition timer_callback :: "timer \<Rightarrow> ('v, 'st) ControllerService \<Rightarrow> ('v, 'st) ControllerService" where
  "timer_callback t s =
     (case t of (p, cmd, deadline) \<Rightarrow> settle (removeCommand s cmd) p (Rejected ''Command timed out''))"

text \<open>
  \<open>setTimeout\<close> of Node.js keeps the delay in a signed integer of 32 bits: it takes a
  delay from 1 to 2147483647 milliseconds as it is and sets any other delay to 1
  millisecond. The model takes delays that are whole numbers of milliseconds.
\<close>

definition setTimeout_delay :: "int \<Rightarrow> nat" where
  "setTimeout_delay delay = (if 1 \<le> delay \<and> delay \<le> 2147483647 then nat delay else 1)"

text \<open>
  \<open>send\<close> takes the reference of the command and the timeout in milliseconds. It answers
  the promise it made: the queue has the command at its end, a timer is armed when the
  timeout is positive, the command has its \<open>onDone\<close>, and the port has been handed the
  text of the command and a newline (that write is not awaited).
\<close>

definition send ::
  "('v, 'st) ControllerService \<Rightarrow> nat \<Rightarrow> int \<Rightarrow> nat \<times> ('v, 'st) ControllerService" where
  "send s cmd timeoutMs =
     (let s1 = s\<lparr>commands := commands s @ [cmd]\<rparr>;
          result = npromises s1;
          s2 = s1\<lparr>npromises := Suc result\<rparr>;
          s3 = (if timeoutMs > 0
                then s2\<lparr>timers := timers s2 @
                                    [(result, cmd, now s2 + setTimeout_delay timeoutMs)]\<rparr>
                else s2);
          s4 = s3\<lparr>heap := (heap s3)(cmd := (heap s3 cmd)\<lparr>onDone := Some result\<rparr>)\<rparr>;
          s5 = s4\<lparr>serialPort := SerialPort_write (serialPort s4)
                                   (Buffer_from (command (heap s4 cmd) @ [LF]))\<rparr>
      in (result, s5))"

subsection \<open>Incoming data\<close>

text \<open>\<open>commands[0].appendLine(line)\<close>, for the command object at reference \<open>r\<close>.\<close>

definition Command_appendLine ::
  "('v, 'st) command_classes \<Rightarrow> ('v, 'st) ControllerService \<Rightarrow> nat \<Rightarrow> string \<Rightarrow>
   ('v, 'st) ControllerService" where
  "Command_appendLine K s r line =
     (let c = heap s r in
      case appendLine K (state c) (variant c) line of
        (st, v, called) \<Rightarrow>
          (let s1 = s\<lparr>heap := (heap s)(r := c\<lparr>state := st, variant := v\<rparr>)\<rparr>
           in if called then run_onDone s1 (onDone c) else s1))"

text \<open>One round of the loop of \<open>onData\<close>, for a newline found at \<open>endLineIndex\<close>.\<close>

definition onData_line ::
  "('v, 'st) command_classes \<Rightarrow> ('v, 'st) ControllerService \<Rightarrow> nat \<Rightarrow> ('v, 'st) ControllerService" where
  "onData_line K s endLineIndex =
     (let line = take endLineIndex (buffer s);
          s1 = s\<lparr>buffer := drop (endLineIndex + 1) (buffer s)\<rparr>;
          s2 = s1\<lparr>console := console s1 @ [''<<< '' @ line]\<rparr>
      in if commands s2 \<noteq> [] then
           (let s3 = Command_appendLine K s2 (hd (commands s2)) line
            in if state (heap s3 (hd (commands s3))) = DONE
               then s3\<lparr>commands := tl (commands s3)\<rparr> else s3)
         else s2)"

text \<open>
  The loop of \<open>onData\<close> runs while the buffer holds a newline. Each round shortens the
  buffer, which is why the loop ends; the facts about \<open>indexOf\<close> that show it come first.
\<close>

lemma startsWith_occurs_at: "startsWith s p = occurs_at s p 0"
proof -
  have "length p \<le> length s" if "take (length p) s = p"
  proof -
    have "length (take (length p) s) = length p" using arg_cong[OF that, of length] .
    then show ?thesis by simp
  qed
  then show ?thesis by (auto simp: startsWith_def occurs_at_def)
qed

lemma occurs_at_Cons_Suc: "occurs_at (c # cs) p (Suc i) = occurs_at cs p i"
  by (simp add: occurs_at_def)

lemma occurs_at_Nil: "occurs_at [] p i = (p = [] \<and> i = 0)"
  by (auto simp: occurs_at_def)

lemma indexOf_from_range: "indexOf_from s p k = - 1 \<or> int k \<le> indexOf_from s p k"
  by (induction s arbitrary: k) (auto, force)

lemma first_occurrence_Cons:
  assumes "\<not> occurs_at (c # cs) p 0"
  shows "first_occurrence (c # cs) p i \<longleftrightarrow> (\<exists>j. i = Suc j \<and> first_occurrence cs p j)"
proof (cases i)
  case 0
  with assms show ?thesis by (simp add: first_occurrence_def)
next
  case (Suc j)
  have "(\<forall>m \<in> {0..<Suc j}. \<not> occurs_at (c # cs) p m) \<longleftrightarrow> (\<forall>m \<in> {0..<j}. \<not> occurs_at cs p m)"
  proof
    assume a: "\<forall>m \<in> {0..<Suc j}. \<not> occurs_at (c # cs) p m"
    show "\<forall>m \<in> {0..<j}. \<not> occurs_at cs p m"
    proof
      fix m assume "m \<in> {0..<j}"
      then have "Suc m \<in> {0..<Suc j}" by simp
      with a have "\<not> occurs_at (c # cs) p (Suc m)" by blast
      then show "\<not> occurs_at cs p m" by (simp add: occurs_at_Cons_Suc)
    qed
  next
    assume a: "\<forall>m \<in> {0..<j}. \<not> occurs_at cs p m"
    show "\<forall>m \<in> {0..<Suc j}. \<not> occurs_at (c # cs) p m"
    proof
      fix m assume m: "m \<in> {0..<Suc j}"
      show "\<not> occurs_at (c # cs) p m"
      proof (cases m)
        case 0
        with assms show ?thesis by simp
      next
        case (Suc n)
        with m a show ?thesis by (simp add: occurs_at_Cons_Suc)
      qed
    qed
  qed
  with Suc show ?thesis by (simp add: first_occurrence_def occurs_at_Cons_Suc)
qed

lemma indexOf_from_first:
  "indexOf_from s p k = int (k + i) \<longleftrightarrow> first_occurrence s p i"
proof (induction s arbitrary: k i)
  case Nil
  show ?case by (auto simp: first_occurrence_def occurs_at_Nil)
next
  case (Cons c cs)
  show ?case
  proof (cases "startsWith (c # cs) p")
    case True
    then have "occurs_at (c # cs) p 0" by (simp add: startsWith_occurs_at)
    then have "first_occurrence (c # cs) p i \<longleftrightarrow> i = 0"
      by (cases i) (auto simp: first_occurrence_def)
    with True show ?thesis by simp
  next
    case False
    then have no0: "\<not> occurs_at (c # cs) p 0" by (simp add: startsWith_occurs_at)
    show ?thesis
    proof (cases i)
      case 0
      have "indexOf_from cs p (Suc k) \<noteq> int k"
        using indexOf_from_range[of cs p "Suc k"] by auto
      with False 0 no0 show ?thesis by (simp add: first_occurrence_def)
    next
      case (Suc j)
      with False Cons.IH[of "Suc k" j] first_occurrence_Cons[OF no0, of i]
      show ?thesis by simp
    qed
  qed
qed

lemma indexOf_first: "indexOf s p = int i \<longleftrightarrow> first_occurrence s p i"
  using indexOf_from_first[of s p 0 i] by (simp add: indexOf_def)

lemma indexOf_range: "indexOf s p = - 1 \<or> 0 \<le> indexOf s p"
  using indexOf_from_range[of s p 0] by (simp add: indexOf_def)

lemma occurs_at_char: "occurs_at s [c] i \<longleftrightarrow> i < length s \<and> s ! i = c"
proof (cases "i < length s")
  case True
  then show ?thesis
    by (auto simp: occurs_at_def take_Suc_conv_app_nth Cons_nth_drop_Suc[symmetric])
next
  case False
  then show ?thesis by (simp add: occurs_at_def)
qed

lemma indexOf_char_found:
  assumes "0 \<le> indexOf s [c]"
  shows "nat (indexOf s [c]) < length s" and "s ! nat (indexOf s [c]) = c"
    and "c \<notin> set (take (nat (indexOf s [c])) s)"
proof -
  define i where "i = nat (indexOf s [c])"
  with assms have "indexOf s [c] = int i" by simp
  then have f: "first_occurrence s [c] i" by (simp add: indexOf_first)
  then have here: "i < length s" "s ! i = c"
    by (simp_all add: first_occurrence_def occurs_at_char)
  have "c \<notin> set (take i s)"
  proof
    assume "c \<in> set (take i s)"
    then obtain j where j: "j < length (take i s)" "take i s ! j = c"
      by (auto simp: in_set_conv_nth)
    then have "j < i" "occurs_at s [c] j" using here by (simp_all add: occurs_at_char)
    with f show False by (simp add: first_occurrence_def)
  qed
  with here show "nat (indexOf s [c]) < length s" "s ! nat (indexOf s [c]) = c"
    "c \<notin> set (take (nat (indexOf s [c])) s)"
    by (simp_all add: i_def)
qed

lemma indexOf_char_absent:
  assumes "\<not> 0 \<le> indexOf s [c]"
  shows "c \<notin> set s"
proof
  assume "c \<in> set s"
  then obtain j where j: "j < length s" "s ! j = c" by (auto simp: in_set_conv_nth)
  define k where "k = (LEAST m. occurs_at s [c] m)"
  have "occurs_at s [c] j" using j by (simp add: occurs_at_char)
  then have "occurs_at s [c] k" unfolding k_def by (rule LeastI)
  moreover have "\<not> occurs_at s [c] m" if "m < k" for m
    using that unfolding k_def by (rule not_less_Least)
  ultimately have "first_occurrence s [c] k"
    unfolding first_occurrence_def by auto
  then have "indexOf s [c] = int k" by (simp only: indexOf_first)
  with assms show False by simp
qed

lemma Buffer_from_text [simp]: "Buffer_from text = text"
  by (simp add: Buffer_from_def)

lemma settle_frame [simp]:
  "buffer (settle s p out) = buffer s" "commands (settle s p out) = commands s"
  "heap (settle s p out) = heap s" "timers (settle s p out) = timers s"
  "now (settle s p out) = now s" "console (settle s p out) = console s"
  "npromises (settle s p out) = npromises s" "nextRef (settle s p out) = nextRef s"
  "serialPort (settle s p out) = serialPort s" "xmodemMode (settle s p out) = xmodemMode s"
  "status (settle s p out) = status s" "currentVersion (settle s p out) = currentVersion s"
  "statusListeners (settle s p out) = statusListeners s" "stats (settle s p out) = stats s"
  by (simp_all add: settle_def)

lemma clearTimeout_frame [simp]:
  "buffer (clearTimeout s p) = buffer s" "commands (clearTimeout s p) = commands s"
  "heap (clearTimeout s p) = heap s" "settled (clearTimeout s p) = settled s"
  "now (clearTimeout s p) = now s" "console (clearTimeout s p) = console s"
  "npromises (clearTimeout s p) = npromises s" "nextRef (clearTimeout s p) = nextRef s"
  "serialPort (clearTimeout s p) = serialPort s" "xmodemMode (clearTimeout s p) = xmodemMode s"
  "status (clearTimeout s p) = status s" "currentVersion (clearTimeout s p) = currentVersion s"
  "statusListeners (clearTimeout s p) = statusListeners s" "stats (clearTimeout s p) = stats s"
  by (simp_all add: clearTimeout_def)

lemma removeCommand_frame [simp]:
  "buffer (removeCommand s c) = buffer s" "timers (removeCommand s c) = timers s"
  "heap (removeCommand s c) = heap s" "settled (removeCommand s c) = settled s"
  "now (removeCommand s c) = now s" "console (removeCommand s c) = console s"
  "npromises (removeCommand s c) = npromises s" "nextRef (removeCommand s c) = nextRef s"
  "serialPort (removeCommand s c) = serialPort s" "xmodemMode (removeCommand s c) = xmodemMode s"
  "status (removeCommand s c) = status s" "currentVersion (removeCommand s c) = currentVersion s"
  "statusListeners (removeCommand s c) = statusListeners s" "stats (removeCommand s c) = stats s"
  by (simp_all add: removeCommand_def)

lemma run_onDone_frame [simp]:
  "buffer (run_onDone s cb) = buffer s" "commands (run_onDone s cb) = commands s"
  "heap (run_onDone s cb) = heap s"
  "now (run_onDone s cb) = now s" "console (run_onDone s cb) = console s"
  "npromises (run_onDone s cb) = npromises s" "nextRef (run_onDone s cb) = nextRef s"
  "serialPort (run_onDone s cb) = serialPort s" "xmodemMode (run_onDone s cb) = xmodemMode s"
  "status (run_onDone s cb) = status s" "currentVersion (run_onDone s cb) = currentVersion s"
  "statusListeners (run_onDone s cb) = statusListeners s" "stats (run_onDone s cb) = stats s"
  by (simp_all add: run_onDone_def split: option.splits)

lemma Command_appendLine_frame [simp]:
  "buffer (Command_appendLine K s r line) = buffer s"
  "commands (Command_appendLine K s r line) = commands s"
  "now (Command_appendLine K s r line) = now s"
  "console (Command_appendLine K s r line) = console s"
  "npromises (Command_appendLine K s r line) = npromises s"
  "nextRef (Command_appendLine K s r line) = nextRef s"
  "serialPort (Command_appendLine K s r line) = serialPort s"
  "xmodemMode (Command_appendLine K s r line) = xmodemMode s"
  "status (Command_appendLine K s r line) = status s"
  "currentVersion (Command_appendLine K s r line) = currentVersion s"
  "statusListeners (Command_appendLine K s r line) = statusListeners s"
  "stats (Command_appendLine K s r line) = stats s"
  by (simp_all add: Command_appendLine_def Let_def split: prod.splits)

lemma onData_line_frame [simp]:
  "buffer (onData_line K s i) = drop (i + 1) (buffer s)"
  "console (onData_line K s i) = console s @ [''<<< '' @ take i (buffer s)]"
  "now (onData_line K s i) = now s"
  "npromises (onData_line K s i) = npromises s"
  "nextRef (onData_line K s i) = nextRef s"
  "serialPort (onData_line K s i) = serialPort s"
  "xmodemMode (onData_line K s i) = xmodemMode s"
  "status (onData_line K s i) = status s"
  "currentVersion (onData_line K s i) = currentVersion s"
  "statusListeners (onData_line K s i) = statusListeners s"
  "stats (onData_line K s i) = stats s"
  by (simp_all add: onData_line_def Let_def)

function onData_loop ::
  "('v, 'st) command_classes \<Rightarrow> ('v, 'st) ControllerService \<Rightarrow> ('v, 'st) ControllerService" where
  "onData_loop K s =
     (let endLineIndex = indexOf (buffer s) [LF]
      in if endLineIndex \<ge> 0 then onData_loop K (onData_line K s (nat endLineIndex)) else s)"
  by pat_completeness auto
termination
proof (relation "measure (\<lambda>(K, s). length (buffer s))")
  show "wf (measure (\<lambda>(K, s). length (buffer s)))" by simp
next
  fix K :: "('v, 'st) command_classes" and s :: "('v, 'st) ControllerService" and x :: int
  assume "x = indexOf (buffer s) [LF]" and "0 \<le> x"
  then have "nat x < length (buffer s)" using indexOf_char_found(1)[of "buffer s" LF] by simp
  then show "((K, onData_line K s (nat x)), (K, s)) \<in> measure (\<lambda>(K, s). length (buffer s))"
    by simp
qed

declare onData_loop.simps [simp del]

text \<open>
  The reader of incoming data. Each chunk is decoded on its own, whatever the chunks
  before it held.
\<close>

definition onData ::
  "('v, 'st) command_classes \<Rightarrow> ('v, 'st) ControllerService \<Rightarrow> Buffer \<Rightarrow> ('v, 'st) ControllerService" where
  "onData K s data =
     (if xmodemMode s then s
      else onData_loop K (s\<lparr>buffer := buffer s @ remove_CR (toString data)\<rparr>))"

text \<open>Feeding a sequence of chunks, one call of \<open>onData\<close> for each.\<close>

fun feed ::
  "('v, 'st) command_classes \<Rightarrow> ('v, 'st) ControllerService \<Rightarrow> Buffer list \<Rightarrow> ('v, 'st) ControllerService" where
  "feed K s [] = s"
| "feed K s (data # chunks) = feed K (onData K s data) chunks"

subsection \<open>Events while a caller waits\<close>

text \<open>
  Between the moment an asynchronous function suspends and the moment it resumes, the
  runtime runs other callbacks of the service: the port delivers a chunk to \<open>onData\<close>, or
  time passes and the timers that are due fire. \<open>Elapse ms\<close> moves the clock forward and
  runs the callbacks of the timers whose deadline has come.
\<close>

datatype event = Data Buffer | Elapse nat

definition elapse :: "('v, 'st) ControllerService \<Rightarrow> nat \<Rightarrow> ('v, 'st) ControllerService" where
  "elapse s ms =
     (let s1 = s\<lparr>now := now s + ms\<rparr>;
          due = filter (\<lambda>t. snd (snd t) \<le> now s1) (timers s1);
          s2 = s1\<lparr>timers := filter (\<lambda>t. \<not> snd (snd t) \<le> now s1) (timers s1)\<rparr>
      in fold timer_callback due s2)"

definition step ::
  "('v, 'st) command_classes \<Rightarrow> ('v, 'st) ControllerService \<Rightarrow> event \<Rightarrow> ('v, 'st) ControllerService" where
  "step K s e = (case e of Data d \<Rightarrow> onData K s d | Elapse ms \<Rightarrow> elapse s ms)"

fun run ::
  "('v, 'st) command_classes \<Rightarrow> ('v, 'st) ControllerService \<Rightarrow> event list \<Rightarrow> ('v, 'st) ControllerService" where
  "run K s [] = s"
| "run K s (e # evs) = run K (step K s e) evs"

fun elapsed :: "event list \<Rightarrow> nat" where
  "elapsed [] = 0"
| "elapsed (Data d # evs) = elapsed evs"
| "elapsed (Elapse ms # evs) = ms + elapsed evs"

subsection \<open>Asynchronous functions\<close>

text \<open>
  What the surroundings answer to the service, in the order they are asked:
  \<open>transport\<close> holds the outcomes of the awaited calls of the serial port (\<open>None\<close> for
  success, \<open>Some e\<close> for a failure with message \<open>e\<close>), \<open>clock\<close> the readings of
  \<open>Date.now()\<close>, \<open>reads\<close> the outcomes of \<open>readLine\<close> and \<open>waitForLine\<close> of the buffered
  reader (\<open>Inl e\<close> for a failure, \<open>Inr b\<close> for a buffer), and \<open>events\<close> the events that
  happen while the service waits for a command. An asynchronous function takes the
  service and the surroundings; it answers \<open>None\<close> when it never returns on these
  answers, and otherwise its result (\<open>Inl\<close> for a rejection) with what is left.
\<close>

datatype rejection = Reason string | No_reason

record environment =
  transport :: "string option list"
  clock :: "int list"
  reads :: "(string + Buffer) list"
  events :: "event list"

type_synonym ('v, 'st) world = "('v, 'st) ControllerService \<times> environment"

type_synonym ('v, 'st, 'a) async = "('v, 'st) world \<Rightarrow> ((rejection + 'a) \<times> ('v, 'st) world) option"

definition resolved :: "'a \<Rightarrow> ('v, 'st, 'a) async" where
  "resolved x = (\<lambda>w. Some (Inr x, w))"

definition andThen :: "('v, 'st, 'a) async \<Rightarrow> ('a \<Rightarrow> ('v, 'st, 'b) async) \<Rightarrow> ('v, 'st, 'b) async" where
  "andThen m f =
     (\<lambda>w. case m w of
            None \<Rightarrow> None
          | Some (Inl e, w') \<Rightarrow> Some (Inl e, w')
          | Some (Inr x, w') \<Rightarrow> f x w')"

text \<open>
  Waiting for promise \<open>p\<close>: events run until the promise is settled. With no event left
  and the promise still pending, the wait does not end.
\<close>

fun await_events ::
  "('v, 'st) command_classes \<Rightarrow> nat \<Rightarrow> ('v, 'st) ControllerService \<Rightarrow> event list \<Rightarrow>
   (outcome \<times> ('v, 'st) ControllerService \<times> event list) option" where
  "await_events K p s [] =
     (case promise_state s p of None \<Rightarrow> None | Some out \<Rightarrow> Some (out, s, []))"
| "await_events K p s (e # evs) =
     (case promise_state s p of
        None \<Rightarrow> await_events K p (step K s e) evs
      | Some out \<Rightarrow> Some (out, s, e # evs))"

definition await :: "('v, 'st) command_classes \<Rightarrow> nat \<Rightarrow> ('v, 'st, unit) async" where
  "await K p =
     (\<lambda>(s, env). case await_events K p s (events env) of
                   None \<Rightarrow> None
                 | Some (out, s', evs) \<Rightarrow>
                     Some ((case out of Resolved \<Rightarrow> Inr () | Rejected e \<Rightarrow> Inl (Reason e)),
                           (s', env\<lparr>events := evs\<rparr>)))"

text \<open>\<open>new\<close>: a fresh reference for a new command object.\<close>

definition new_object ::
  "('v, 'st) ControllerService \<Rightarrow> 'v Command \<Rightarrow> nat \<times> ('v, 'st) ControllerService" where
  "new_object s c = (nextRef s, s\<lparr>heap := (heap s)(nextRef s := c), nextRef := Suc (nextRef s)\<rparr>)"

definition ping :: "('v, 'st) command_classes \<Rightarrow> ('v, 'st, unit) async" where
  "ping K =
     (\<lambda>(s, env).
        case new_object s (new_PingCommand K) of
          (pingCommand, s1) \<Rightarrow>
            (case send s1 pingCommand 1000 of
               (p, s2) \<Rightarrow>
                 (case await K p (s2, env) of
                    None \<Rightarrow> None
                  | Some (Inr _, (s3, env3)) \<Rightarrow> Some (Inr (), (s3\<lparr>status := CONNECTED\<rparr>, env3))
                  | Some (Inl error, w) \<Rightarrow> Some (Inl No_reason, w))))"

text \<open>A string or \<open>undefined\<close> used as a condition.\<close>

definition truthy :: "string option \<Rightarrow> bool" where
  "truthy v = (case v of None \<Rightarrow> False | Some x \<Rightarrow> x \<noteq> [])"

definition getStats :: "('v, 'st) command_classes \<Rightarrow> ('v, 'st, 'st option) async" where
  "getStats K =
     (\<lambda>(s, env).
        if stats s = None \<and> truthy (currentVersion s) then
          (case new_object s (new_GetStatsCommand K) of
             (cmd, s1) \<Rightarrow>
               (case send s1 cmd 5000 of
                  (p, s2) \<Rightarrow>
                    (case await K p (s2, env) of
                       None \<Rightarrow> None
                     | Some (Inr _, (s3, env3)) \<Rightarrow>
                         (let s4 = s3\<lparr>stats := Some (command_getStats K (heap s3 cmd))\<rparr>
                          in Some (Inr (stats s4), (s4, env3)))
                     | Some (Inl error, (s3, env3)) \<Rightarrow> Some (Inr (stats s3), (s3, env3)))))
        else Some (Inr (stats s), (s, env)))"

subsection \<open>The handshake\<close>

text \<open>
  Modelled from the spec: the awaited calls of the transport and of the buffered reader
  (\<open>utils/serialport/SerialPort.ts\<close>). Each takes the next answer of the surroundings;
  with no answer left the call never completes.
\<close>

definition transport_outcome :: "('v, 'st, unit) async" where
  "transport_outcome =
     (\<lambda>(s, env). case transport env of
                   [] \<Rightarrow> None
                 | r # rest \<Rightarrow>
                     Some ((case r of None \<Rightarrow> Inr () | Some e \<Rightarrow> Inl (Reason e)),
                           (s, env\<lparr>transport := rest\<rparr>)))"

definition serialPort_open :: "('v, 'st, unit) async" where
  "serialPort_open =
     andThen transport_outcome
       (\<lambda>_. \<lambda>(s, env). Some (Inr (), (s\<lparr>serialPort := (serialPort s)\<lparr>isOpen := True\<rparr>\<rparr>, env)))"

definition serialPort_write :: "Buffer \<Rightarrow> ('v, 'st, unit) async" where
  "serialPort_write b =
     (\<lambda>(s, env). transport_outcome (s\<lparr>serialPort := SerialPort_write (serialPort s) b\<rparr>, env))"

definition bufferedReader_read :: "('v, 'st, Buffer) async" where
  "bufferedReader_read =
     (\<lambda>(s, env). case reads env of
                   [] \<Rightarrow> None
                 | r # rest \<Rightarrow>
                     Some ((case r of Inl e \<Rightarrow> Inl (Reason e) | Inr b \<Rightarrow> Inr b),
                           (s, env\<lparr>reads := rest\<rparr>)))"

text \<open>
  \<open>waitForSettle\<close> reads lines until an empty one, sleeping between reads (\<open>sleep\<close>
  returns and changes nothing). Its loop, over the answers of the reader:
\<close>

fun waitForSettle_loop ::
  "(string + Buffer) list \<Rightarrow> ((rejection + unit) \<times> (string + Buffer) list) option" where
  "waitForSettle_loop [] = None"
| "waitForSettle_loop (r # rest) =
     (case r of
        Inl e \<Rightarrow> Some (Inl (Reason e), rest)
      | Inr b \<Rightarrow> if length b > 0 then waitForSettle_loop rest else Some (Inr (), rest))"

definition waitForSettle :: "('v, 'st, unit) async" where
  "waitForSettle =
     (\<lambda>(s, env). case waitForSettle_loop (reads env) of
                   None \<Rightarrow> None
                 | Some (r, rest) \<Rightarrow> Some (r, (s, env\<lparr>reads := rest\<rparr>)))"

text \<open>
  The loop of \<open>waitForWelcomeString\<close>: each round reads the clock, and within 15000 ms of
  \<open>currentTime\<close> reads a line and decodes it. A failed read is caught and the loop goes on.
\<close>

fun waitForWelcomeString_loop ::
  "int \<Rightarrow> int list \<Rightarrow> (string + Buffer) list \<Rightarrow>
   (bool \<times> int list \<times> (string + Buffer) list) option" where
  "waitForWelcomeString_loop currentTime [] rs = None"
| "waitForWelcomeString_loop currentTime (t # ts) rs =
     (if currentTime + 15000 > t then
        (case rs of
           [] \<Rightarrow> None
         | r # rest \<Rightarrow>
             (case r of
                Inr response \<Rightarrow>
                  if isWelcomeString (Some (toString response)) then Some (True, ts, rest)
                  else waitForWelcomeString_loop currentTime ts rest
              | Inl error \<Rightarrow> waitForWelcomeString_loop currentTime ts rest))
      else Some (False, ts, rs))"

definition waitForWelcomeString :: "('v, 'st, bool) async" where
  "waitForWelcomeString =
     (\<lambda>(s, env). case clock env of
                   [] \<Rightarrow> None
                 | currentTime # ts \<Rightarrow>
                     (case waitForWelcomeString_loop currentTime ts (reads env) of
                        None \<Rightarrow> None
                      | Some (found, ts', rs') \<Rightarrow>
                          Some (Inr found, (s, env\<lparr>clock := ts', reads := rs'\<rparr>))))"

definition set_currentVersion :: "string \<Rightarrow> ('v, 'st, unit) async" where
  "set_currentVersion v = (\<lambda>(s, env). Some (Inr (), (s\<lparr>currentVersion := Some v\<rparr>, env)))"

definition initializeController :: "('v, 'st, unit) async" where
  "initializeController =
     andThen waitForWelcomeString (\<lambda>gotWelcomeString.
       if gotWelcomeString then
         andThen waitForSettle (\<lambda>_.
         andThen (serialPort_write (Buffer_from [LF])) (\<lambda>_.
         andThen bufferedReader_read (\<lambda>_.
         andThen (serialPort_write (Buffer_from (''$I'' @ [LF]))) (\<lambda>_.
         andThen bufferedReader_read (\<lambda>versionResponse.
         andThen (set_currentVersion (toString versionResponse)) (\<lambda>_.
         waitForSettle))))))
       else resolved ())"

subsection \<open>Connecting\<close>

definition connect_getStats :: "('v, 'st) command_classes \<Rightarrow> ('v, 'st, ControllerStatus) async" where
  "connect_getStats K = andThen (getStats K) (\<lambda>_. \<lambda>(s, env). Some (Inr (status s), (s, env)))"

definition connect :: "('v, 'st) command_classes \<Rightarrow> ('v, 'st, ControllerStatus) async" where
  "connect K =
     (\<lambda>(s, env).
        if \<not> isOpen (serialPort s) then
          (case serialPort_open (s, env) of
             None \<Rightarrow> None
           | Some (Inl e, w) \<Rightarrow> Some (Inl e, w)
           | Some (Inr _, (s1, env1)) \<Rightarrow>
               (let s2 = s1\<lparr>serialPort := (serialPort s1)
                             \<lparr>disconnectListeners := Suc (disconnectListeners (serialPort s1))\<rparr>\<rparr>;
                    s3 = s2\<lparr>serialPort := addReader (serialPort s2) bufferedReader_getReader\<rparr>
                in case andThen (serialPort_write [CHR 0x0C, CHR 0x18])
                          (\<lambda>_. initializeController) (s3, env1) of
                     None \<Rightarrow> None
                   | Some (r, (s4, env4)) \<Rightarrow>
                       (let s5 = s4\<lparr>serialPort :=
                                      removeReader (serialPort s4) bufferedReader_getReader\<rparr>
                        in case r of
                             Inl e \<Rightarrow> Some (Inl e, (s5, env4))
                           | Inr _ \<Rightarrow>
                               (let s6 = s5\<lparr>status := CONNECTED\<rparr>;
                                    s7 = s6\<lparr>serialPort := addReader (serialPort s6) this_onData\<rparr>
                                in connect_getStats K (s7, env4)))))
        else connect_getStats K (s, env))"

section \<open>Notions the properties speak of\<close>

text \<open>
  The lines \<open>onData\<close> emitted between a state \<open>s\<close> and a later state \<open>s'\<close>, read off the
  console, where \<open>onData\<close> writes each line behind the four characters of \<open>"<<< "\<close>.
\<close>

definition emitted :: "('v, 'st) ControllerService \<Rightarrow> ('v, 'st) ControllerService \<Rightarrow> string list" where
  "emitted s s' = map (drop 4) (drop (length (console s)) (console s'))"

definition clean_buffer :: "('v, 'st) ControllerService \<Rightarrow> bool" where
  "clean_buffer s = (LF \<notin> set (buffer s) \<and> CR \<notin> set (buffer s))"



text \<open>
  The three situations of the promise \<open>p\<close> that \<open>send\<close> made for command \<open>c\<close> with a timer
  of deadline \<open>D\<close>: the timer is armed and the promise pending; the promise is resolved;
  or the timer has fired, the promise is rejected and the command has left the queue.
\<close>

definition armed :: "('v, 'st) ControllerService \<Rightarrow> nat \<Rightarrow> nat \<Rightarrow> nat \<Rightarrow> bool" where
  "armed s p c D =
     (promise_state s p = None \<and> (p, c, D) \<in> set (timers s) \<and> now s < D \<and>
      (\<forall>t \<in> set (timers s). fst t = p \<longrightarrow> t = (p, c, D)))"

definition timed_out :: "('v, 'st) ControllerService \<Rightarrow> nat \<Rightarrow> nat \<Rightarrow> bool" where
  "timed_out s p c =
     (promise_state s p = Some (Rejected ''Command timed out'') \<and> c \<notin> set (commands s))"

text \<open>
  No promise, timer or callback of the service names a promise that is yet to be made:
  the runtime numbers promises in the order it makes them.
\<close>

definition fresh_promises :: "('v, 'st) ControllerService \<Rightarrow> bool" where
  "fresh_promises s =
     ((\<forall>x \<in> set (settled s). fst x < npromises s) \<and>
      (\<forall>t \<in> set (timers s). fst t < npromises s))"

definition fresh_callbacks :: "('v, 'st) ControllerService \<Rightarrow> bool" where
  "fresh_callbacks s = (\<forall>r q. onDone (heap s r) = Some q \<longrightarrow> q < npromises s)"

text \<open>
  What the controller service expects of a command class: \<open>appendLine\<close> calls \<open>onDone\<close>
  only when it leaves the command in state \<open>DONE\<close>.
\<close>

definition reports_done :: "('v, 'st) command_classes \<Rightarrow> bool" where
  "reports_done K =
     (\<forall>st v line. case appendLine K st v line of (st', v', called) \<Rightarrow> called \<longrightarrow> st' = DONE)"

text \<open>
  The promise \<open>p\<close> of command \<open>c\<close> is in one of its three situations, and it is timed out
  only once the deadline \<open>D\<close> has come.
\<close>

definition timer_inv :: "('v, 'st) ControllerService \<Rightarrow> nat \<Rightarrow> nat \<Rightarrow> nat \<Rightarrow> bool" where
  "timer_inv s p c D =
     (armed s p c D \<or> promise_state s p = Some Resolved \<or> (timed_out s p c \<and> D \<le> now s))"

text \<open>
  Bookkeeping for the promise \<open>p\<close> of command \<open>c\<close>: no other command object holds the
  callback of \<open>p\<close>, \<open>c\<close> stands in the queue at most once, and once \<open>p\<close> is resolved \<open>c\<close> is
  done and has left the queue.
\<close>

definition done_link :: "('v, 'st) ControllerService \<Rightarrow> nat \<Rightarrow> nat \<Rightarrow> bool" where
  "done_link s p c =
     ((\<forall>r. onDone (heap s r) = Some p \<longrightarrow> r = c) \<and> count_list (commands s) c \<le> 1 \<and>
      (promise_state s p = Some Resolved \<longrightarrow> state (heap s c) = DONE \<and> c \<notin> set (commands s)))"

text \<open>No timer belongs to promise \<open>p\<close>, and \<open>p\<close> is not rejected.\<close>

definition untimed :: "('v, 'st) ControllerService \<Rightarrow> nat \<Rightarrow> bool" where
  "untimed s p =
     ((\<forall>t \<in> set (timers s). fst t \<noteq> p) \<and> (\<forall>e. promise_state s p \<noteq> Some (Rejected e)))"


text \<open>The service after \<open>send\<close> and the events that follow it.\<close>

definition after_send ::
  "('v, 'st) command_classes \<Rightarrow> ('v, 'st) ControllerService \<Rightarrow> nat \<Rightarrow> int \<Rightarrow> event list \<Rightarrow>
   ('v, 'st) ControllerService" where
  "after_send K s cmd timeoutMs evs = run K (snd (send s cmd timeoutMs)) evs"

text \<open>
  Events \<open>evs\<close>, run from the state \<open>s\<close>, settle promise \<open>p\<close> with \<open>out\<close> at their end: after
  them the promise is settled with \<open>out\<close>, and before the last of them it is still pending.
  With no event the promise is settled in \<open>s\<close> already.
\<close>

definition settles_at ::
  "('v, 'st) command_classes \<Rightarrow> ('v, 'st) ControllerService \<Rightarrow> nat \<Rightarrow> event list \<Rightarrow>
   outcome \<Rightarrow> bool" where
  "settles_at K s p evs out =
     (promise_state (run K s evs) p = Some out \<and>
      (evs = [] \<or> promise_state (run K s (butlast evs)) p = None))"

text \<open>
  The service at the moment \<open>ping\<close> starts to wait, having made its command and sent it,
  and the service at the moment \<open>getStats\<close> starts to wait.
\<close>

definition ping_sent ::
  "('v, 'st) command_classes \<Rightarrow> ('v, 'st) ControllerService \<Rightarrow> ('v, 'st) ControllerService" where
  "ping_sent K s = snd (send (snd (new_object s (new_PingCommand K))) (nextRef s) 1000)"

definition getStats_sent ::
  "('v, 'st) command_classes \<Rightarrow> ('v, 'st) ControllerService \<Rightarrow> ('v, 'st) ControllerService" where
  "getStats_sent K s = snd (send (snd (new_object s (new_GetStatsCommand K))) (nextRef s) 5000)"

text \<open>Sending commands one after the other, each with no timeout.\<close>

fun sendAll :: "('v, 'st) ControllerService \<Rightarrow> nat list \<Rightarrow> nat list \<times> ('v, 'st) ControllerService" where
  "sendAll s [] = ([], s)"
| "sendAll s (c # cs) =
     (case send s c 0 of (p, s1) \<Rightarrow> (case sendAll s1 cs of (ps, s2) \<Rightarrow> (p # ps, s2)))"

text \<open>
  The lines a command expects: fed to \<open>appendLine\<close> in turn, the last one and no earlier
  one leaves the command \<open>DONE\<close> with \<open>onDone\<close> called.
\<close>

fun completes_with ::
  "('v, 'st) command_classes \<Rightarrow> CommandState \<Rightarrow> 'v \<Rightarrow> string list \<Rightarrow> bool" where
  "completes_with K st v [] = False"
| "completes_with K st v (l # ls) =
     (case appendLine K st v l of
        (st', v', called) \<Rightarrow>
          if ls = [] then called \<and> st' = DONE
          else \<not> called \<and> st' \<noteq> DONE \<and> completes_with K st' v' ls)"

text \<open>
  What one line does to the command objects, the queue and the settled promises, as the
  body of the loop of \<open>onData\<close> does it; \<open>queue_view\<close> reads these three off the service.
\<close>

fun deliver ::
  "('v, 'st) command_classes \<Rightarrow> string \<Rightarrow>
   (nat \<Rightarrow> 'v Command) \<times> nat list \<times> (nat \<times> outcome) list \<Rightarrow>
   (nat \<Rightarrow> 'v Command) \<times> nat list \<times> (nat \<times> outcome) list" where
  "deliver K line (hp, [], stl) = (hp, [], stl)"
| "deliver K line (hp, h # rest, stl) =
     (case appendLine K (state (hp h)) (variant (hp h)) line of
        (st, v, called) \<Rightarrow>
          (hp(h := (hp h)\<lparr>state := st, variant := v\<rparr>),
           if st = DONE then rest else h # rest,
           if called
           then (case onDone (hp h) of
                   None \<Rightarrow> stl
                 | Some q \<Rightarrow> if map_of stl q = None then stl @ [(q, Resolved)] else stl)
           else stl))"

definition queue_view ::
  "('v, 'st) ControllerService \<Rightarrow> (nat \<Rightarrow> 'v Command) \<times> nat list \<times> (nat \<times> outcome) list" where
  "queue_view s = (heap s, commands s, settled s)"

subsection \<open>Concrete inputs\<close>

text \<open>
  A command class in the manner of the device's protocol: a command collects the lines of
  the reply and is done, calling \<open>onDone\<close>, at the line \<open>ok\<close>. The statistics of a
  statistics command are the lines it collected.
\<close>

definition example_classes :: "(string list, string list) command_classes" where
  "example_classes =
     \<lparr>appendLine = (\<lambda>st v line. if line = ''ok'' then (DONE, v, True) else (st, v @ [line], False)),
      new_PingCommand = \<lparr>command = ''$G'', state = PENDING, onDone = None, variant = []\<rparr>,
      new_GetStatsCommand = \<lparr>command = ''$SS'', state = PENDING, onDone = None, variant = []\<rparr>,
      command_getStats = variant\<rparr>"

definition example_runtime :: "string list runtime" where
  "example_runtime =
     \<lparr>heap = (\<lambda>_. \<lparr>command = [], state = PENDING, onDone = None, variant = []\<rparr>),
      nextRef = 0, npromises = 0, settled = [], timers = [], now = 0, console = []\<rparr>"

definition example_port :: SerialPort where
  "example_port = \<lparr>isOpen = False, written = [], readers = [], disconnectListeners = 0\<rparr>"

definition example_service :: "(string list, string list) ControllerService" where
  "example_service = constructor example_runtime example_port"

definition example_chunks :: "Buffer list" where
  "example_chunks = [''ab'', ''c'' @ [CR, LF] @ ''d'', [LF, LF] @ ''x'']"

text \<open>
  The two bytes of the character U+00E9 and a newline, with the chunk boundary between
  the two bytes.
\<close>

definition split_character :: "Buffer list" where
  "split_character = [[CHR 0xC3], [CHR 0xA9, LF]]"


text \<open>
  A service that is connected and knows the version of the device but has no statistics
  yet, and surroundings in which the device answers a command with one line and \<open>ok\<close>.
\<close>

definition connected_service :: "(string list, string list) ControllerService" where
  "connected_service =
     example_service
       \<lparr>serialPort := example_port\<lparr>isOpen := True, readers := [this_onData]\<rparr>,
        status := CONNECTED,
        currentVersion := Some ''[VER:3.7 FluidNC v3.7.8:]''\<rparr>"

definition reply_environment :: environment where
  "reply_environment =
     \<lparr>transport = [], clock = [], reads = [],
      events = [Data (''[MSG:Heap 27000]'' @ [LF] @ ''ok'' @ [LF])]\<rparr>"

text \<open>
  A command sent with a timeout of 1000 ms, to which the device answers a line that does
  not complete it, after which 1000 ms pass.
\<close>

definition pending_example :: "(string list, string list) ControllerService" where
  "pending_example = after_send example_classes example_service 0 1000
      [Data (''hello'' @ [LF]), Elapse 1000]"

text \<open>Surroundings in which the device stays silent for 1000 ms.\<close>

definition quiet_environment :: environment where
  "quiet_environment = \<lparr>transport = [], clock = [], reads = [], events = [Elapse 1000]\<rparr>"

text \<open>Surroundings in which the device stays silent for 5000 ms.\<close>

definition idle_environment :: environment where
  "idle_environment = \<lparr>transport = [], clock = [], reads = [], events = [Elapse 5000]\<rparr>"

text \<open>
  The lines two commands expect, the first a line of text and \<open>ok\<close>, the second \<open>ok\<close>, and
  chunks that carry them with a chunk boundary inside a line.
\<close>

definition two_lines :: "string list list" where
  "two_lines = [[''[MSG:INFO]'', ''ok''], [''ok'']]"

definition two_chunks :: "Buffer list" where
  "two_chunks = [''[MSG:INFO]'' @ [CR, LF] @ ''o'', ''k'' @ [LF] @ ''ok'' @ [LF]]"

section \<open>Properties of the line buffer\<close>

lemma onData_loop_unfold_found:
  "0 \<le> indexOf (buffer s) [LF] \<Longrightarrow>
   onData_loop K s = onData_loop K (onData_line K s (nat (indexOf (buffer s) [LF])))"
  by (subst onData_loop.simps) (simp add: Let_def)

lemma onData_loop_unfold_none:
  "\<not> 0 \<le> indexOf (buffer s) [LF] \<Longrightarrow> onData_loop K s = s"
  by (subst onData_loop.simps) (simp add: Let_def)

lemma split_at_newline:
  assumes "0 \<le> indexOf b [LF]"
  shows "take (nat (indexOf b [LF])) b @ [LF] @ drop (nat (indexOf b [LF]) + 1) b = b"
proof -
  from indexOf_char_found[OF assms]
  have "nat (indexOf b [LF]) < length b" "b ! nat (indexOf b [LF]) = LF" by simp_all
  then show ?thesis by (metis Suc_eq_plus1 append_Cons append_Nil id_take_nth_drop)
qed

lemma onData_loop_lines:
  "\<exists>ls. console (onData_loop K s) = console s @ map (\<lambda>l. ''<<< '' @ l) ls \<and>
        concat (map (\<lambda>l. l @ [LF]) ls) @ buffer (onData_loop K s) = buffer s \<and>
        (\<forall>l \<in> set ls. LF \<notin> set l) \<and> LF \<notin> set (buffer (onData_loop K s))"
proof (induction K s rule: onData_loop.induct)
  case (1 K s)
  show ?case
  proof (cases "0 \<le> indexOf (buffer s) [LF]")
    case True
    define i where "i = nat (indexOf (buffer s) [LF])"
    define s' where "s' = onData_line K s i"
    from "1.IH"[OF refl True] obtain ls where ls:
      "console (onData_loop K s') = console s' @ map (\<lambda>l. ''<<< '' @ l) ls"
      "concat (map (\<lambda>l. l @ [LF]) ls) @ buffer (onData_loop K s') = buffer s'"
      "\<forall>l \<in> set ls. LF \<notin> set l" "LF \<notin> set (buffer (onData_loop K s'))"
      unfolding s'_def i_def by blast
    have eq: "onData_loop K s = onData_loop K s'"
      unfolding s'_def i_def by (rule onData_loop_unfold_found[OF True])
    have line: "LF \<notin> set (take i (buffer s))"
      unfolding i_def by (rule indexOf_char_found(3)[OF True])
    have whole: "take i (buffer s) @ [LF] @ drop (i + 1) (buffer s) = buffer s"
      unfolding i_def by (rule split_at_newline[OF True])
    let ?ls = "take i (buffer s) # ls"
    have "console (onData_loop K s) = console s @ map (\<lambda>l. ''<<< '' @ l) ?ls"
      using ls(1) by (simp add: eq s'_def)
    moreover have "concat (map (\<lambda>l. l @ [LF]) ?ls) @ buffer (onData_loop K s) = buffer s"
    proof -
      have "concat (map (\<lambda>l. l @ [LF]) ?ls) @ buffer (onData_loop K s)
            = take i (buffer s) @ [LF] @ (concat (map (\<lambda>l. l @ [LF]) ls) @ buffer (onData_loop K s'))"
        by (simp add: eq)
      also have "\<dots> = take i (buffer s) @ [LF] @ drop (i + 1) (buffer s)"
        by (simp only: ls(2)) (simp add: s'_def)
      finally show ?thesis using whole by simp
    qed
    moreover have "\<forall>l \<in> set ?ls. LF \<notin> set l" using ls(3) line by simp
    moreover have "LF \<notin> set (buffer (onData_loop K s))" using ls(4) by (simp add: eq)
    ultimately show ?thesis by blast
  next
    case False
    then have "onData_loop K s = s" by (rule onData_loop_unfold_none)
    moreover have "LF \<notin> set (buffer s)" using False by (rule indexOf_char_absent)
    ultimately have "console (onData_loop K s) = console s @ map (\<lambda>l. ''<<< '' @ l) [] \<and>
        concat (map (\<lambda>l. l @ [LF]) []) @ buffer (onData_loop K s) = buffer s \<and>
        (\<forall>l \<in> set []. LF \<notin> set l) \<and> LF \<notin> set (buffer (onData_loop K s))"
      by simp
    then show ?thesis by blast
  qed
qed

lemma onData_loop_preserves:
  assumes "\<And>s i. f (onData_line K s i) = f s"
  shows "f (onData_loop K s) = f s"
  using assms
proof (induction K s rule: onData_loop.induct)
  case (1 K' s)
  show ?case
  proof (cases "0 \<le> indexOf (buffer s) [LF]")
    case True
    then show ?thesis
      using "1.IH"[OF refl True "1.prems"] "1.prems" by (simp add: onData_loop_unfold_found)
  next
    case False
    then show ?thesis by (simp add: onData_loop_unfold_none)
  qed
qed

lemma onData_loop_frame [simp]:
  "now (onData_loop K s) = now s"
  "npromises (onData_loop K s) = npromises s"
  "nextRef (onData_loop K s) = nextRef s"
  "serialPort (onData_loop K s) = serialPort s"
  "xmodemMode (onData_loop K s) = xmodemMode s"
  "status (onData_loop K s) = status s"
  "currentVersion (onData_loop K s) = currentVersion s"
  "statusListeners (onData_loop K s) = statusListeners s"
  "stats (onData_loop K s) = stats s"
  by (rule onData_loop_preserves, simp)+

lemma onData_frame [simp]:
  "now (onData K s d) = now s"
  "npromises (onData K s d) = npromises s"
  "nextRef (onData K s d) = nextRef s"
  "serialPort (onData K s d) = serialPort s"
  "xmodemMode (onData K s d) = xmodemMode s"
  "status (onData K s d) = status s"
  "currentVersion (onData K s d) = currentVersion s"
  "statusListeners (onData K s d) = statusListeners s"
  "stats (onData K s d) = stats s"
  by (simp_all add: onData_def)

lemma feed_xmodemMode [simp]: "xmodemMode (feed K s chunks) = xmodemMode s"
  by (induction chunks arbitrary: s) simp_all

lemma onData_lines:
  assumes "\<not> xmodemMode s"
  shows "\<exists>ls. console (onData K s d) = console s @ map (\<lambda>l. ''<<< '' @ l) ls \<and>
        concat (map (\<lambda>l. l @ [LF]) ls) @ buffer (onData K s d)
          = buffer s @ remove_CR (toString d) \<and>
        (\<forall>l \<in> set ls. LF \<notin> set l) \<and> LF \<notin> set (buffer (onData K s d))"
  using assms onData_loop_lines[of K "s\<lparr>buffer := buffer s @ remove_CR (toString d)\<rparr>"]
  by (simp add: onData_def)

lemma remove_CR_append: "remove_CR (x @ y) = remove_CR x @ remove_CR y"
  by (simp add: remove_CR_def)

lemma remove_CR_concat: "remove_CR (concat chunks) = concat (map remove_CR chunks)"
  by (induction chunks) (simp_all add: remove_CR_def)

lemma feed_lines:
  assumes "\<not> xmodemMode s" and "LF \<notin> set (buffer s)"
  shows "\<exists>ls. console (feed K s chunks) = console s @ map (\<lambda>l. ''<<< '' @ l) ls \<and>
        concat (map (\<lambda>l. l @ [LF]) ls) @ buffer (feed K s chunks)
          = buffer s @ remove_CR (concat (map toString chunks)) \<and>
        (\<forall>l \<in> set ls. LF \<notin> set l) \<and> LF \<notin> set (buffer (feed K s chunks))"
  using assms
proof (induction chunks arbitrary: s)
  case Nil
  have "console (feed K s []) = console s @ map (\<lambda>l. ''<<< '' @ l) [] \<and>
        concat (map (\<lambda>l. l @ [LF]) []) @ buffer (feed K s [])
          = buffer s @ remove_CR (concat (map toString [])) \<and>
        (\<forall>l \<in> set []. LF \<notin> set l) \<and> LF \<notin> set (buffer (feed K s []))"
    using Nil by (simp add: remove_CR_def)
  then show ?case by blast
next
  case (Cons d chunks)
  from onData_lines[OF Cons.prems(1), of K d] obtain ls1 where 1:
    "console (onData K s d) = console s @ map (\<lambda>l. ''<<< '' @ l) ls1"
    "concat (map (\<lambda>l. l @ [LF]) ls1) @ buffer (onData K s d) = buffer s @ remove_CR (toString d)"
    "\<forall>l \<in> set ls1. LF \<notin> set l" "LF \<notin> set (buffer (onData K s d))"
    by blast
  have "\<not> xmodemMode (onData K s d)" using Cons.prems(1) by simp
  from Cons.IH[OF this 1(4)] obtain ls2 where 2:
    "console (feed K (onData K s d) chunks) = console (onData K s d) @ map (\<lambda>l. ''<<< '' @ l) ls2"
    "concat (map (\<lambda>l. l @ [LF]) ls2) @ buffer (feed K (onData K s d) chunks)
       = buffer (onData K s d) @ remove_CR (concat (map toString chunks))"
    "\<forall>l \<in> set ls2. LF \<notin> set l" "LF \<notin> set (buffer (feed K (onData K s d) chunks))"
    by blast
  let ?ls = "ls1 @ ls2"
  have "console (feed K s (d # chunks)) = console s @ map (\<lambda>l. ''<<< '' @ l) ?ls"
    using 1(1) 2(1) by simp
  moreover have "concat (map (\<lambda>l. l @ [LF]) ?ls) @ buffer (feed K s (d # chunks))
          = buffer s @ remove_CR (concat (map toString (d # chunks)))"
  proof -
    have "concat (map (\<lambda>l. l @ [LF]) ?ls) @ buffer (feed K s (d # chunks))
       = concat (map (\<lambda>l. l @ [LF]) ls1) @
         (concat (map (\<lambda>l. l @ [LF]) ls2) @ buffer (feed K (onData K s d) chunks))"
      by simp
    also have "\<dots> = (concat (map (\<lambda>l. l @ [LF]) ls1) @ buffer (onData K s d)) @
                     remove_CR (concat (map toString chunks))"
      by (simp only: 2(2)) simp
    also have "\<dots> = buffer s @ remove_CR (concat (map toString (d # chunks)))"
      by (simp only: 1(2)) (simp add: remove_CR_append)
    finally show ?thesis .
  qed
  moreover have "\<forall>l \<in> set ?ls. LF \<notin> set l" using 1(3) 2(3) by auto
  moreover have "LF \<notin> set (buffer (feed K s (d # chunks)))" using 2(4) by simp
  ultimately show ?case by blast
qed

lemma utf8_decode_ascii:
  "\<forall>b \<in> set bs. (of_char b :: nat) < 128 \<Longrightarrow> utf8_decode 0 lower upper seen bs = bs"
  by (induction bs arbitrary: lower upper seen) (simp_all add: Let_def)

lemma toString_ascii: "ascii data \<Longrightarrow> toString data = data"
  by (simp add: ascii_def toString_def utf8_decode_ascii)

lemma emitted_append:
  "console s' = console s @ map (\<lambda>l. ''<<< '' @ l) ls \<Longrightarrow> emitted s s' = ls"
  by (simp add: emitted_def comp_def)

lemma indexOf_at_first_newline:
  assumes "c \<notin> set x"
  shows "indexOf (x @ c # y) [c] = int (length x)"
proof -
  have "occurs_at (x @ c # y) [c] (length x)" by (simp add: occurs_at_char)
  moreover have "\<not> occurs_at (x @ c # y) [c] j" if "j < length x" for j
    using that assms by (auto simp: occurs_at_char nth_append)
  ultimately have "first_occurrence (x @ c # y) [c] (length x)"
    by (simp add: first_occurrence_def)
  then show ?thesis by (simp only: indexOf_first)
qed

lemma indexOf_Nil_char: "indexOf [] [c] = - 1"
  by (simp add: indexOf_def)

text \<open>
  C1, as the specification words it: for every sequence of byte chunks fed to \<open>onData\<close>
  the emitted lines, each followed by a newline, and then the retained buffer, together
  are the concatenation of the chunks with every carriage return removed. This fails when
  the bytes of one character are split over two chunks. \<open>onData\<close> decodes each chunk on
  its own: of the two bytes \<open>C3 A9\<close> of a character, the first at the end of a chunk and the
  second at the start of the next become a replacement character each, and the emitted
  line holds two replacement characters, where the same bytes in one chunk give the line
  with the character.
\<close>

theorem feed_split_character_counterexample:
  "\<not> xmodemMode example_service \<and> buffer example_service = [] \<and>
   emitted example_service (feed example_classes example_service split_character)
     = [replacement_character @ replacement_character] \<and>
   buffer (feed example_classes example_service split_character) = [] \<and>
   concat (map (\<lambda>l. l @ [LF])
       (emitted example_service (feed example_classes example_service split_character)))
     @ buffer (feed example_classes example_service split_character)
     \<noteq> buffer example_service @ remove_CR (concat split_character) \<and>
   emitted example_service (feed example_classes example_service [concat split_character])
     = [[CHR 0xC3, CHR 0xA9]]"
proof -
  have a: "\<not> xmodemMode example_service" "buffer example_service = []"
    by (simp_all add: example_service_def constructor_def)
  have e: "emitted example_service (feed example_classes example_service split_character)
     = [replacement_character @ replacement_character]"
    by code_simp
  have b: "buffer (feed example_classes example_service split_character) = []"
    by code_simp
  have r: "remove_CR (concat split_character) = [CHR 0xC3, CHR 0xA9, LF]"
    by (simp add: split_character_def remove_CR_def CR_def LF_def)
  have n: "concat (map (\<lambda>l. l @ [LF])
       (emitted example_service (feed example_classes example_service split_character)))
     @ buffer (feed example_classes example_service split_character)
     \<noteq> buffer example_service @ remove_CR (concat split_character)"
    by (simp add: e b r a(2) replacement_character_def)
  have o: "emitted example_service (feed example_classes example_service [concat split_character])
     = [[CHR 0xC3, CHR 0xA9]]"
    by code_simp
  from a e b n o show ?thesis by blast
qed

text \<open>
  C1, amended. Let chunks be fed to \<open>onData\<close> one after the other while no binary transfer
  is active, starting with a buffer that holds no newline. The emitted lines, each followed
  by a newline, and then the retained buffer, together are the buffer of before followed
  by the concatenation of the decoded chunks, each chunk decoded on its own, with every
  carriage return removed. When every chunk decodes to itself, as every chunk of ASCII
  bytes does, this is the concatenation of the chunks with every carriage return removed.
  No emitted line holds a newline and neither does the retained buffer: what follows the
  last newline stays in the buffer until a later chunk brings a newline.
\<close>

theorem feed_reassembles_input:
  assumes "\<not> xmodemMode s" and "LF \<notin> set (buffer s)"
  shows "concat (map (\<lambda>l. l @ [LF]) (emitted s (feed K s chunks))) @ buffer (feed K s chunks)
           = buffer s @ remove_CR (concat (map toString chunks)) \<and>
         ((\<forall>data \<in> set chunks. toString data = data) \<longrightarrow>
            concat (map (\<lambda>l. l @ [LF]) (emitted s (feed K s chunks))) @ buffer (feed K s chunks)
              = buffer s @ remove_CR (concat chunks)) \<and>
         (\<forall>data \<in> set chunks. ascii data \<longrightarrow> toString data = data) \<and>
         console (feed K s chunks)
           = console s @ map (\<lambda>l. ''<<< '' @ l) (emitted s (feed K s chunks)) \<and>
         (\<forall>l \<in> set (emitted s (feed K s chunks)). LF \<notin> set l) \<and>
         LF \<notin> set (buffer (feed K s chunks))"
proof -
  from feed_lines[OF assms, of K chunks] obtain ls where ls:
    "console (feed K s chunks) = console s @ map (\<lambda>l. ''<<< '' @ l) ls"
    "concat (map (\<lambda>l. l @ [LF]) ls) @ buffer (feed K s chunks)
       = buffer s @ remove_CR (concat (map toString chunks))"
    "\<forall>l \<in> set ls. LF \<notin> set l" "LF \<notin> set (buffer (feed K s chunks))"
    by blast
  have em: "emitted s (feed K s chunks) = ls" using ls(1) by (rule emitted_append)
  have same: "map toString chunks = chunks" if "\<forall>data \<in> set chunks. toString data = data"
    using that by (simp add: map_idI)
  have 1: "concat (map (\<lambda>l. l @ [LF]) (emitted s (feed K s chunks))) @ buffer (feed K s chunks)
           = buffer s @ remove_CR (concat (map toString chunks))"
    using ls(2) by (simp only: em)
  have 2: "concat (map (\<lambda>l. l @ [LF]) (emitted s (feed K s chunks))) @ buffer (feed K s chunks)
              = buffer s @ remove_CR (concat chunks)"
    if "\<forall>data \<in> set chunks. toString data = data"
    using 1 same[OF that] by simp
  have 3: "\<forall>data \<in> set chunks. ascii data \<longrightarrow> toString data = data"
    by (simp add: toString_ascii)
  have 4: "console (feed K s chunks)
           = console s @ map (\<lambda>l. ''<<< '' @ l) (emitted s (feed K s chunks))"
    using ls(1) by (simp only: em)
  have 5: "\<forall>l \<in> set (emitted s (feed K s chunks)). LF \<notin> set l"
    using ls(3) by (simp only: em)
  from 1 2 3 4 5 ls(4) show ?thesis by blast
qed

theorem feed_reassembles_input_witness:
  "\<not> xmodemMode example_service \<and> LF \<notin> set (buffer example_service) \<and>
   list_all ascii example_chunks \<and> map toString example_chunks = example_chunks \<and>
   emitted example_service (feed example_classes example_service example_chunks)
     = [''abc'', ''d'', []] \<and>
   buffer (feed example_classes example_service example_chunks) = ''x'' \<and>
   concat (map (\<lambda>l. l @ [LF])
       (emitted example_service (feed example_classes example_service example_chunks)))
     @ buffer (feed example_classes example_service example_chunks)
     = buffer example_service @ remove_CR (concat example_chunks)"
proof -
  have a: "\<not> xmodemMode example_service" "LF \<notin> set (buffer example_service)"
    by (simp_all add: example_service_def constructor_def)
  have c: "list_all ascii example_chunks"
    by (simp add: example_chunks_def ascii_def LF_def CR_def)
  have e: "emitted example_service (feed example_classes example_service example_chunks)
             = [''abc'', ''d'', []]"
    by code_simp
  have b: "buffer (feed example_classes example_service example_chunks) = ''x''"
    by code_simp
  note t = feed_reassembles_input[OF a, of example_classes example_chunks]
  from t c have d: "\<forall>data \<in> set example_chunks. toString data = data"
    by (simp add: list_all_iff)
  then have m: "map toString example_chunks = example_chunks" by (simp add: map_idI)
  from t d have "concat (map (\<lambda>l. l @ [LF])
       (emitted example_service (feed example_classes example_service example_chunks)))
     @ buffer (feed example_classes example_service example_chunks)
     = buffer example_service @ remove_CR (concat example_chunks)"
    by blast
  with a c m e b show ?thesis by blast
qed

text \<open>
  C6. While a binary transfer is active, \<open>onData\<close> changes nothing: the state after the
  call, with the line buffer and the queue of pending commands, is the state before it.
\<close>

theorem onData_during_transfer:
  assumes "xmodemMode s"
  shows "onData K s data = s"
  using assms by (simp add: onData_def)

theorem onData_during_transfer_witness:
  "xmodemMode (example_service\<lparr>xmodemMode := True\<rparr>) \<and>
   buffer (onData example_classes (example_service\<lparr>xmodemMode := True\<rparr>) (''ok'' @ [LF])) = [] \<and>
   commands (onData example_classes (example_service\<lparr>xmodemMode := True\<rparr>) (''ok'' @ [LF])) = []"
  using onData_during_transfer[of "example_service\<lparr>xmodemMode := True\<rparr>" example_classes "''ok'' @ [LF]"]
  by (simp add: example_service_def constructor_def)

text \<open>
  C8. A chunk that decodes to a complete line, fed to \<open>onData\<close> while the queue of
  pending commands is empty, is dropped. The function has no failing branch; the queue
  stays empty, and the status, the version, the statistics, the listeners, the transfer
  flag, the port, the command objects, the promises and the timers are as before. The
  line buffer has consumed the line and is empty, as it was when the line began at a line
  boundary; the console has the line. Nothing else differs.
\<close>

theorem onData_empty_queue:
  assumes "commands s = []" and "\<not> xmodemMode s"
      and "LF \<notin> set (buffer s)" and "toString data = line @ [LF]" and "LF \<notin> set line"
  shows "onData K s data
           = s\<lparr>console := console s @ [''<<< '' @ buffer s @ remove_CR line], buffer := []\<rparr> \<and>
         (buffer s = [] \<longrightarrow>
            onData K s data = s\<lparr>console := console s @ [''<<< '' @ remove_CR line]\<rparr>)"
proof -
  define b where "b = buffer s @ remove_CR line"
  define s1 where "s1 = s\<lparr>buffer := b @ [LF]\<rparr>"
  have nl: "LF \<notin> set b" using assms(3,5) by (simp add: b_def remove_CR_def)
  have "remove_CR (line @ [LF]) = remove_CR line @ [LF]"
    by (simp add: remove_CR_def LF_def CR_def)
  then have start: "onData K s data = onData_loop K s1"
    using assms(2,4) by (simp add: onData_def s1_def b_def)
  have idx: "indexOf (buffer s1) [LF] = int (length b)"
    using indexOf_at_first_newline[OF nl, of "[]"] by (simp add: s1_def)
  define s2 where "s2 = onData_line K s1 (length b)"
  have s2: "s2 = s\<lparr>console := console s @ [''<<< '' @ b], buffer := []\<rparr>"
    using assms(1) by (simp add: s2_def onData_line_def s1_def Let_def)
  have "onData_loop K s1 = onData_loop K s2"
    using onData_loop_unfold_found[of s1 K] idx by (simp add: s2_def)
  also have "\<dots> = s2"
    by (rule onData_loop_unfold_none) (simp add: s2 indexOf_Nil_char)
  finally have 1: "onData K s data
           = s\<lparr>console := console s @ [''<<< '' @ buffer s @ remove_CR line], buffer := []\<rparr>"
    using start s2 by (simp add: b_def)
  have 2: "onData K s data = s\<lparr>console := console s @ [''<<< '' @ remove_CR line]\<rparr>"
    if "buffer s = []"
  proof -
    have "s\<lparr>console := console s @ [''<<< '' @ remove_CR line], buffer := []\<rparr>
          = s\<lparr>console := console s @ [''<<< '' @ remove_CR line]\<rparr>"
      using that by simp
    with 1 that show ?thesis by simp
  qed
  from 1 2 show ?thesis by blast
qed

theorem onData_empty_queue_witness:
  "commands example_service = [] \<and> \<not> xmodemMode example_service \<and>
   buffer example_service = [] \<and> toString (''hello'' @ [LF]) = ''hello'' @ [LF] \<and>
   LF \<notin> set ''hello'' \<and>
   onData example_classes example_service (''hello'' @ [LF])
     = example_service\<lparr>console := console example_service @ [''<<< hello'']\<rparr> \<and>
   commands (onData example_classes example_service (''hello'' @ [LF])) = [] \<and>
   status (onData example_classes example_service (''hello'' @ [LF])) = status example_service"
proof -
  have a: "commands example_service = []" "\<not> xmodemMode example_service"
    "LF \<notin> set (buffer example_service)"
    and l: "LF \<notin> set ''hello''"
    and b: "buffer example_service = []"
    by (simp_all add: example_service_def constructor_def LF_def)
  have t: "toString (''hello'' @ [LF]) = ''hello'' @ [LF]"
    by (simp add: toString_def LF_def)
  have r: "remove_CR ''hello'' = ''hello''" by (simp add: remove_CR_def CR_def)
  from onData_empty_queue[OF a t l, of example_classes] b r
  have e: "onData example_classes example_service (''hello'' @ [LF])
     = example_service\<lparr>console := console example_service @ [''<<< hello'']\<rparr>"
    by simp
  then have "commands (onData example_classes example_service (''hello'' @ [LF])) = []"
    "status (onData example_classes example_service (''hello'' @ [LF])) = status example_service"
    using a(1) by simp_all
  with a b t l e show ?thesis by blast
qed

text \<open>
  C10. The line buffer holds neither a newline nor a carriage return: this holds for the
  service the constructor builds, every call of \<open>onData\<close> keeps it, and so it holds after
  any sequence of chunks. After a call of \<open>onData\<close> with no binary transfer active the
  buffer holds no newline, whatever it held before.
\<close>

theorem buffer_stays_clean:
  "clean_buffer (constructor rt port :: ('v, 'st) ControllerService) \<and>
   (clean_buffer (s :: ('v, 'st) ControllerService) \<longrightarrow> clean_buffer (onData K s data)) \<and>
   (\<not> xmodemMode s \<longrightarrow> LF \<notin> set (buffer (onData K s data))) \<and>
   clean_buffer (feed K (constructor rt port) chunks)"
proof -
  have init: "clean_buffer (constructor rt port :: ('v, 'st) ControllerService)"
    by (simp add: clean_buffer_def constructor_def)
  have keep: "clean_buffer (onData K' s' d)" if c: "clean_buffer s'"
    for K' :: "('v, 'st) command_classes" and s' :: "('v, 'st) ControllerService" and d
  proof (cases "xmodemMode s'")
    case True
    with c show ?thesis by (simp add: onData_def)
  next
    case False
    from onData_lines[OF False, of K' d] obtain ls where ls:
      "concat (map (\<lambda>l. l @ [LF]) ls) @ buffer (onData K' s' d)
         = buffer s' @ remove_CR (toString d)"
      "LF \<notin> set (buffer (onData K' s' d))"
      by blast
    have "set (buffer (onData K' s' d)) \<subseteq> set (buffer s' @ remove_CR (toString d))"
      using arg_cong[OF ls(1), of set] by auto
    moreover have "CR \<notin> set (buffer s' @ remove_CR (toString d))"
      using c by (simp add: clean_buffer_def remove_CR_def)
    ultimately have "CR \<notin> set (buffer (onData K' s' d))" by blast
    with ls(2) show ?thesis by (simp add: clean_buffer_def)
  qed
  have newline: "LF \<notin> set (buffer (onData K s data))" if "\<not> xmodemMode s"
    using onData_lines[OF that, of K data] by blast
  have all: "clean_buffer (feed K s' chunks)" if "clean_buffer s'"
    for s' :: "('v, 'st) ControllerService"
    using that by (induction chunks arbitrary: s') (simp_all add: keep)
  from init keep newline all[OF init] show ?thesis by blast
qed

theorem buffer_stays_clean_witness:
  "clean_buffer example_service \<and>
   clean_buffer (onData example_classes example_service (''c'' @ [CR, LF] @ ''d'')) \<and>
   buffer (onData example_classes example_service (''c'' @ [CR, LF] @ ''d'')) = ''d'' \<and>
   clean_buffer (feed example_classes example_service example_chunks)"
proof -
  have b: "buffer (onData example_classes example_service (''c'' @ [CR, LF] @ ''d'')) = ''d''"
    by code_simp
  from buffer_stays_clean[of example_runtime example_port example_service example_classes
      "''c'' @ [CR, LF] @ ''d''" example_chunks] b
  show ?thesis unfolding example_service_def by blast
qed

section \<open>Properties of the welcome banner\<close>

lemma indexOf_positive:
  "0 < indexOf s p \<longleftrightarrow> (\<exists>i \<in> {1..length s}. first_occurrence s p i)"
proof
  assume pos: "0 < indexOf s p"
  define i where "i = nat (indexOf s p)"
  from pos have i: "indexOf s p = int i" "1 \<le> i" by (simp_all add: i_def)
  then have "first_occurrence s p i" by (simp only: indexOf_first)
  moreover from this have "i \<le> length s" by (simp add: first_occurrence_def occurs_at_def)
  ultimately show "\<exists>i \<in> {1..length s}. first_occurrence s p i" using i(2) by auto
next
  assume "\<exists>i \<in> {1..length s}. first_occurrence s p i"
  then obtain i where "1 \<le> i" "first_occurrence s p i" by auto
  then show "0 < indexOf s p" using indexOf_first[of s p i] by simp
qed

text \<open>
  C4, as the specification words it: a line is accepted exactly when it is not empty and
  starts with \<open>"GrblHAL "\<close>, starts with \<open>"Grbl "\<close>, or holds \<open>" [FluidNC v"\<close> at an index
  greater than zero. This fails for a line that begins with \<open>" [FluidNC v"\<close> and holds it a
  second time further on: \<open>indexOf\<close> answers the first occurrence, at index zero, and the
  line is rejected.
\<close>

theorem isWelcomeString_grammar_counterexample:
  "welcome_grammar '' [FluidNC v [FluidNC v'' \<and>
   \<not> isWelcomeString (Some '' [FluidNC v [FluidNC v'')"
proof -
  have "welcome_grammar '' [FluidNC v [FluidNC v''"
    unfolding welcome_grammar_def contains_at_positive_def by code_simp
  moreover have "\<not> isWelcomeString (Some '' [FluidNC v [FluidNC v'')"
    by (simp add: isWelcomeString_def startsWith_def indexOf_def)
  ultimately show ?thesis by simp
qed

text \<open>
  C4, amended. \<open>isWelcomeString\<close> accepts a line exactly when the line is not empty and
  starts with \<open>"GrblHAL "\<close>, starts with \<open>"Grbl "\<close>, or has its first occurrence of
  \<open>" [FluidNC v"\<close> at an index greater than zero. It rejects \<open>undefined\<close>.
\<close>

theorem isWelcomeString_first_occurrence:
  "(isWelcomeString (Some line) \<longleftrightarrow>
      line \<noteq> [] \<and>
      (startsWith line ''GrblHAL '' \<or> startsWith line ''Grbl '' \<or>
       (\<exists>i \<in> {1..length line}. first_occurrence line '' [FluidNC v'' i))) \<and>
   \<not> isWelcomeString None"
  by (simp add: isWelcomeString_def indexOf_positive)

theorem isWelcomeString_first_occurrence_witness:
  "isWelcomeString (Some ''Grbl 1.1h ['$' for help]'') \<and>
   startsWith ''Grbl 1.1h ['$' for help]'' ''Grbl '' \<and>
   isWelcomeString (Some ''[MSG:INFO: booted] [FluidNC v3.7.8]'') \<and>
   first_occurrence ''[MSG:INFO: booted] [FluidNC v3.7.8]'' '' [FluidNC v'' 18 \<and>
   \<not> isWelcomeString (Some ''ok'') \<and>
   \<not> isWelcomeString (Some [])"
proof -
  have 1: "startsWith ''Grbl 1.1h ['$' for help]'' ''Grbl ''"
    by (simp add: startsWith_def)
  have 2: "first_occurrence ''[MSG:INFO: booted] [FluidNC v3.7.8]'' '' [FluidNC v'' 18"
    unfolding first_occurrence_def occurs_at_def by code_simp
  have 3: "\<not> startsWith ''ok'' ''GrblHAL ''" "\<not> startsWith ''ok'' ''Grbl ''"
    "\<not> (\<exists>i \<in> {1..length ''ok''}. first_occurrence ''ok'' '' [FluidNC v'' i)"
    by (simp_all add: startsWith_def first_occurrence_def occurs_at_def)
  have 4: "(18::nat) \<in> {1..length ''[MSG:INFO: booted] [FluidNC v3.7.8]''}" by simp
  from isWelcomeString_first_occurrence[of "''Grbl 1.1h ['$' for help]''"] 1
  have a: "isWelcomeString (Some ''Grbl 1.1h ['$' for help]'')" by simp
  from isWelcomeString_first_occurrence[of "''[MSG:INFO: booted] [FluidNC v3.7.8]''"] 2 4
  have b: "isWelcomeString (Some ''[MSG:INFO: booted] [FluidNC v3.7.8]'')" by blast
  from isWelcomeString_first_occurrence[of "''ok''"] 3
  have c: "\<not> isWelcomeString (Some ''ok'')" by blast
  from isWelcomeString_first_occurrence[of "[]"]
  have d: "\<not> isWelcomeString (Some [])" by simp
  from a 1 b 2 c d show ?thesis by blast
qed

section \<open>What events leave unchanged\<close>

lemma timer_callback_frame [simp]:
  "buffer (timer_callback t s) = buffer s" "timers (timer_callback t s) = timers s"
  "heap (timer_callback t s) = heap s"
  "now (timer_callback t s) = now s" "console (timer_callback t s) = console s"
  "npromises (timer_callback t s) = npromises s" "nextRef (timer_callback t s) = nextRef s"
  "serialPort (timer_callback t s) = serialPort s" "xmodemMode (timer_callback t s) = xmodemMode s"
  "status (timer_callback t s) = status s" "currentVersion (timer_callback t s) = currentVersion s"
  "statusListeners (timer_callback t s) = statusListeners s" "stats (timer_callback t s) = stats s"
  by (simp_all add: timer_callback_def split: prod.splits)

lemma fold_timer_callback_preserves:
  assumes "\<And>t s. f (timer_callback t s) = f s"
  shows "f (fold timer_callback ts s) = f s"
  by (induction ts arbitrary: s) (simp_all add: assms)

lemma elapse_frame [simp]:
  "buffer (elapse s ms) = buffer s"
  "heap (elapse s ms) = heap s"
  "now (elapse s ms) = now s + ms" "console (elapse s ms) = console s"
  "npromises (elapse s ms) = npromises s" "nextRef (elapse s ms) = nextRef s"
  "serialPort (elapse s ms) = serialPort s" "xmodemMode (elapse s ms) = xmodemMode s"
  "status (elapse s ms) = status s" "currentVersion (elapse s ms) = currentVersion s"
  "statusListeners (elapse s ms) = statusListeners s" "stats (elapse s ms) = stats s"
  by (simp_all add: elapse_def Let_def fold_timer_callback_preserves)

lemma step_frame [simp]:
  "npromises (step K s e) = npromises s" "nextRef (step K s e) = nextRef s"
  "serialPort (step K s e) = serialPort s" "xmodemMode (step K s e) = xmodemMode s"
  "status (step K s e) = status s" "currentVersion (step K s e) = currentVersion s"
  "statusListeners (step K s e) = statusListeners s" "stats (step K s e) = stats s"
  by (simp_all add: step_def split: event.splits)

lemma await_events_preserves:
  assumes "\<And>s e. f (step K s e) = f s"
      and "await_events K p s evs = Some (out, s', evs')"
  shows "f s' = f s"
  using assms(2)
proof (induction evs arbitrary: s)
  case Nil
  then show ?case by (simp split: option.splits)
next
  case (Cons e evs)
  show ?case
  proof (cases "promise_state s p")
    case None
    with Cons.prems have "await_events K p (step K s e) evs = Some (out, s', evs')" by simp
    then have "f s' = f (step K s e)" by (rule Cons.IH)
    then show ?thesis by (simp add: assms(1))
  next
    case (Some a)
    with Cons.prems show ?thesis by simp
  qed
qed

lemma await_frame:
  assumes "await K p (s, env) = Some (r, (s', env'))"
  shows "status s' = status s \<and> currentVersion s' = currentVersion s \<and>
         serialPort s' = serialPort s \<and> stats s' = stats s \<and> xmodemMode s' = xmodemMode s \<and>
         statusListeners s' = statusListeners s \<and>
         transport env' = transport env \<and> clock env' = clock env \<and> reads env' = reads env"
proof -
  from assms obtain out evs' where a: "await_events K p s (events env) = Some (out, s', evs')"
    and e: "env' = env\<lparr>events := evs'\<rparr>"
    by (auto simp: await_def split: option.splits)
  have "(status s', currentVersion s', serialPort s', stats s', xmodemMode s', statusListeners s')
        = (status s, currentVersion s, serialPort s, stats s, xmodemMode s, statusListeners s)"
    by (rule await_events_preserves[where f = "\<lambda>s. (status s, currentVersion s, serialPort s,
          stats s, xmodemMode s, statusListeners s)", OF _ a]) simp
  with e show ?thesis by simp
qed

lemma send_frame [simp]:
  "status (snd (send s c t)) = status s" "currentVersion (snd (send s c t)) = currentVersion s"
  "stats (snd (send s c t)) = stats s" "xmodemMode (snd (send s c t)) = xmodemMode s"
  "statusListeners (snd (send s c t)) = statusListeners s"
  "buffer (snd (send s c t)) = buffer s" "now (snd (send s c t)) = now s"
  "console (snd (send s c t)) = console s" "nextRef (snd (send s c t)) = nextRef s"
  "settled (snd (send s c t)) = settled s"
  "npromises (snd (send s c t)) = Suc (npromises s)"
  "fst (send s c t) = npromises s"
  "commands (snd (send s c t)) = commands s @ [c]"
  "serialPort (snd (send s c t)) = SerialPort_write (serialPort s) (command (heap s c) @ [LF])"
  "heap (snd (send s c t)) = (heap s)(c := (heap s c)\<lparr>onDone := Some (npromises s)\<rparr>)"
  "timers (snd (send s c t))
     = (if t > 0 then timers s @ [(npromises s, c, now s + setTimeout_delay t)] else timers s)"
  by (simp_all add: send_def Let_def)

section \<open>Properties of connecting\<close>




section \<open>The effect of a line and of time on promises\<close>

lemma onData_loop_invariant:
  assumes "\<And>s i. P s \<Longrightarrow> P (onData_line K s i)" and "P s"
  shows "P (onData_loop K s)"
  using assms
proof (induction K s rule: onData_loop.induct)
  case (1 K s)
  show ?case
  proof (cases "0 \<le> indexOf (buffer s) [LF]")
    case True
    have "P (onData_line K s (nat (indexOf (buffer s) [LF])))" using "1.prems" by simp
    from "1.IH"[OF refl True "1.prems"(1) this] show ?thesis
      by (simp add: onData_loop_unfold_found[OF True])
  next
    case False
    with "1.prems"(2) show ?thesis by (simp add: onData_loop_unfold_none)
  qed
qed

lemma onData_invariant:
  assumes "\<And>s i. P s \<Longrightarrow> P (onData_line K s i)"
      and "\<And>s b. P s \<Longrightarrow> P (s\<lparr>buffer := b\<rparr>)" and "P s"
  shows "P (onData K s d)"
  using assms by (simp add: onData_def onData_loop_invariant)

lemma onData_line_empty:
  assumes "commands s = []"
  shows "heap (onData_line K s i) = heap s" "commands (onData_line K s i) = []"
        "settled (onData_line K s i) = settled s" "timers (onData_line K s i) = timers s"
  using assms by (simp_all add: onData_line_def Let_def)

lemma onData_line_head:
  assumes "commands s = h # rest"
      and "appendLine K (state (heap s h)) (variant (heap s h)) (take i (buffer s)) = (st, v, called)"
  shows "heap (onData_line K s i) = (heap s)(h := (heap s h)\<lparr>state := st, variant := v\<rparr>)"
    and "commands (onData_line K s i) = (if st = DONE then rest else h # rest)"
    and "settled (onData_line K s i)
           = (if called then settled (run_onDone s (onDone (heap s h))) else settled s)"
    and "timers (onData_line K s i)
           = (if called then timers (run_onDone s (onDone (heap s h))) else timers s)"
  using assms
  by (simp_all add: onData_line_def Command_appendLine_def Let_def run_onDone_def settle_def
      clearTimeout_def promise_state_def split: option.splits)

lemma promise_state_settle:
  "promise_state (settle s q out) p
     = (if q = p \<and> promise_state s p = None then Some out else promise_state s p)"
  by (auto simp: settle_def promise_state_def map_add_def split: option.splits)

lemma promise_state_run_onDone:
  "promise_state (run_onDone s cb) p
     = (if cb = Some p \<and> promise_state s p = None then Some Resolved else promise_state s p)"
proof (cases cb)
  case None
  then show ?thesis by (simp add: run_onDone_def)
next
  case (Some q)
  have "promise_state (clearTimeout s q) x = promise_state s x" for x
    by (simp add: promise_state_def)
  with Some show ?thesis by (simp add: run_onDone_def promise_state_settle)
qed

lemma timers_run_onDone:
  "timers (run_onDone s cb)
     = (case cb of None \<Rightarrow> timers s | Some q \<Rightarrow> filter (\<lambda>t. fst t \<noteq> q) (timers s))"
  by (simp add: run_onDone_def clearTimeout_def split: option.splits)

lemma promise_state_timer_callback:
  "promise_state (timer_callback (q, c, d) s) p
     = (if q = p \<and> promise_state s p = None then Some (Rejected ''Command timed out'')
        else promise_state s p)"
proof -
  have "promise_state (removeCommand s c) x = promise_state s x" for x
    by (simp add: promise_state_def)
  then show ?thesis by (simp add: timer_callback_def promise_state_settle)
qed

lemma commands_timer_callback:
  "commands (timer_callback (q, c, d) s) = filter (\<lambda>x. x \<noteq> c) (commands s)"
  by (simp add: timer_callback_def removeCommand_def)

lemma promise_state_onData_line:
  "promise_state (onData_line K s i) p
     = (case commands s of
          [] \<Rightarrow> promise_state s p
        | h # rest \<Rightarrow>
            (case appendLine K (state (heap s h)) (variant (heap s h)) (take i (buffer s)) of
               (st, v, called) \<Rightarrow>
                 if called \<and> onDone (heap s h) = Some p \<and> promise_state s p = None
                 then Some Resolved else promise_state s p))"
proof (cases "commands s")
  case Nil
  then show ?thesis using onData_line_empty(3)[OF Nil, of K i] by (simp add: promise_state_def)
next
  case (Cons h rest)
  obtain st v called where
    a: "appendLine K (state (heap s h)) (variant (heap s h)) (take i (buffer s)) = (st, v, called)"
    by (cases "appendLine K (state (heap s h)) (variant (heap s h)) (take i (buffer s))")
  have "promise_state (onData_line K s i) p
        = (if called then promise_state (run_onDone s (onDone (heap s h))) p else promise_state s p)"
    using onData_line_head(3)[OF Cons a] by (simp add: promise_state_def)
  with Cons a show ?thesis by (simp add: promise_state_run_onDone)
qed

lemma timers_onData_line_subset: "set (timers (onData_line K s i)) \<subseteq> set (timers s)"
proof (cases "commands s")
  case Nil
  then show ?thesis using onData_line_empty(4)[OF Nil, of K i] by simp
next
  case (Cons h rest)
  obtain st v called where
    a: "appendLine K (state (heap s h)) (variant (heap s h)) (take i (buffer s)) = (st, v, called)"
    by (cases "appendLine K (state (heap s h)) (variant (heap s h)) (take i (buffer s))")
  show ?thesis using onData_line_head(4)[OF Cons a]
    by (auto simp: timers_run_onDone split: option.splits)
qed

lemma commands_onData_line:
  "commands (onData_line K s i) = commands s \<or> commands (onData_line K s i) = tl (commands s)"
proof (cases "commands s")
  case Nil
  then show ?thesis using onData_line_empty(2)[OF Nil, of K i] by simp
next
  case (Cons h rest)
  obtain st v called where
    a: "appendLine K (state (heap s h)) (variant (heap s h)) (take i (buffer s)) = (st, v, called)"
    by (cases "appendLine K (state (heap s h)) (variant (heap s h)) (take i (buffer s))")
  show ?thesis using onData_line_head(2)[OF Cons a] Cons by simp
qed

lemma commands_onData_line_subset: "set (commands (onData_line K s i)) \<subseteq> set (commands s)"
  using commands_onData_line[of K s i] by (cases "commands s") auto

lemma armed_onData_line:
  assumes "armed s p c D"
  shows "armed (onData_line K s i) p c D \<or> promise_state (onData_line K s i) p = Some Resolved"
proof (cases "promise_state (onData_line K s i) p = Some Resolved")
  case True
  then show ?thesis by simp
next
  case False
  have pend: "promise_state s p = None" and tm: "(p, c, D) \<in> set (timers s)"
    and nw: "now s < D" and un: "\<And>t. t \<in> set (timers s) \<Longrightarrow> fst t = p \<Longrightarrow> t = (p, c, D)"
    using assms by (simp_all add: armed_def)
  have p': "promise_state (onData_line K s i) p = None \<and> (p, c, D) \<in> set (timers (onData_line K s i))"
  proof (cases "commands s")
    case Nil
    then show ?thesis
      using onData_line_empty(3,4)[OF Nil, of K i] pend tm by (simp add: promise_state_def)
  next
    case (Cons h rest)
    obtain st v called where
      a: "appendLine K (state (heap s h)) (variant (heap s h)) (take i (buffer s)) = (st, v, called)"
      by (cases "appendLine K (state (heap s h)) (variant (heap s h)) (take i (buffer s))")
    have ps: "promise_state (onData_line K s i) p
              = (if called \<and> onDone (heap s h) = Some p then Some Resolved else None)"
      using pend Cons a by (simp add: promise_state_onData_line)
    with False have no: "\<not> (called \<and> onDone (heap s h) = Some p)" by (cases "called \<and> onDone (heap s h) = Some p") simp_all
    have "(p, c, D) \<in> set (timers (onData_line K s i))"
    proof (cases called)
      case False
      then show ?thesis using onData_line_head(4)[OF Cons a] tm by simp
    next
      case True
      with no have ne: "onDone (heap s h) \<noteq> Some p" by simp
      show ?thesis
      proof (cases "onDone (heap s h)")
        case None
        with True show ?thesis using onData_line_head(4)[OF Cons a] tm
          by (simp add: timers_run_onDone)
      next
        case (Some q)
        with ne have "q \<noteq> p" by simp
        with True Some show ?thesis using onData_line_head(4)[OF Cons a] tm
          by (simp add: timers_run_onDone)
      qed
    qed
    with ps no show ?thesis by simp
  qed
  have "t = (p, c, D)" if "t \<in> set (timers (onData_line K s i))" "fst t = p" for t
    using that timers_onData_line_subset[of K s i] un by blast
  with p' nw have "armed (onData_line K s i) p c D" unfolding armed_def by auto
  then show ?thesis by simp
qed

lemma settled_onData_line:
  assumes "promise_state s p = Some out"
  shows "promise_state (onData_line K s i) p = Some out"
  using assms by (simp add: promise_state_onData_line split: list.splits prod.splits)

lemma timed_out_onData_line:
  assumes "timed_out s p c"
  shows "timed_out (onData_line K s i) p c"
  using assms commands_onData_line_subset[of K s i]
  by (auto simp: timed_out_def settled_onData_line)

lemma timer_inv_onData_line:
  assumes "timer_inv s p c D"
  shows "timer_inv (onData_line K s i) p c D"
  using assms armed_onData_line[of s p c D K i] settled_onData_line[of s p Resolved K i]
    timed_out_onData_line[of s p c K i]
  by (auto simp: timer_inv_def)

lemma timer_inv_onData:
  assumes "timer_inv s p c D"
  shows "timer_inv (onData K s d) p c D"
proof (rule onData_invariant[where P = "\<lambda>s. timer_inv s p c D"])
  show "timer_inv (onData_line K s i) p c D" if "timer_inv s p c D" for s :: "('a, 'b) ControllerService" and i
    using that by (rule timer_inv_onData_line)
  show "timer_inv (s\<lparr>buffer := b\<rparr>) p c D" if "timer_inv s p c D" for s :: "('a, 'b) ControllerService" and b
    using that by (simp add: timer_inv_def armed_def timed_out_def promise_state_def)
  show "timer_inv s p c D" by (rule assms)
qed


lemma settled_fold_timer_callback:
  assumes "promise_state s p = Some out"
  shows "promise_state (fold timer_callback ts s) p = Some out"
  using assms
proof (induction ts arbitrary: s)
  case Nil
  then show ?case by simp
next
  case (Cons t ts)
  obtain q c d where t: "t = (q, c, d)" by (cases t)
  have "promise_state (timer_callback t s) p = Some out"
    using Cons.prems by (simp add: t promise_state_timer_callback)
  then show ?case using Cons.IH by simp
qed

lemma commands_fold_timer_callback_subset:
  "set (commands (fold timer_callback ts s)) \<subseteq> set (commands s)"
proof (induction ts arbitrary: s)
  case Nil
  then show ?case by simp
next
  case (Cons t ts)
  obtain q c d where t: "t = (q, c, d)" by (cases t)
  have "set (commands (timer_callback t s)) \<subseteq> set (commands s)"
    by (auto simp: t commands_timer_callback)
  with Cons.IH[of "timer_callback t s"] show ?case by auto
qed

lemma pending_fold_timer_callback:
  assumes "\<And>t. t \<in> set ts \<Longrightarrow> fst t \<noteq> p"
  shows "promise_state (fold timer_callback ts s) p = promise_state s p"
  using assms
proof (induction ts arbitrary: s)
  case Nil
  then show ?case by simp
next
  case (Cons t ts)
  obtain q c d where t: "t = (q, c, d)" by (cases t)
  have "q \<noteq> p" using Cons.prems[of t] by (simp add: t)
  then have "promise_state (timer_callback t s) p = promise_state s p"
    by (simp add: t promise_state_timer_callback)
  moreover have "promise_state (fold timer_callback ts (timer_callback t s)) p
                 = promise_state (timer_callback t s) p"
    using Cons.prems by (intro Cons.IH) simp
  ultimately show ?case by simp
qed

lemma timed_out_fold_timer_callback:
  assumes "timed_out s p c"
  shows "timed_out (fold timer_callback ts s) p c"
  using assms commands_fold_timer_callback_subset[of ts s]
  by (auto simp: timed_out_def settled_fold_timer_callback)

lemma due_fold_timer_callback:
  assumes "(p, c, D) \<in> set ts" and "\<And>t. t \<in> set ts \<Longrightarrow> fst t = p \<Longrightarrow> t = (p, c, D)"
      and "promise_state s p = None"
  shows "timed_out (fold timer_callback ts s) p c"
  using assms
proof (induction ts arbitrary: s)
  case Nil
  then show ?case by simp
next
  case (Cons t ts)
  obtain q c' d where t: "t = (q, c', d)" by (cases t)
  show ?case
  proof (cases "q = p")
    case True
    then have "t = (p, c, D)" using Cons.prems(2)[of t] by (simp add: t)
    then have "timed_out (timer_callback t s) p c"
      using Cons.prems(3)
      by (simp add: timed_out_def promise_state_timer_callback commands_timer_callback)
    then show ?thesis using timed_out_fold_timer_callback by simp
  next
    case False
    then have "promise_state (timer_callback t s) p = None"
      using Cons.prems(3) by (simp add: t promise_state_timer_callback)
    moreover have "(p, c, D) \<in> set ts" using Cons.prems(1) False by (auto simp: t)
    moreover have "\<And>u. u \<in> set ts \<Longrightarrow> fst u = p \<Longrightarrow> u = (p, c, D)"
      using Cons.prems(2) by simp
    ultimately have "timed_out (fold timer_callback ts (timer_callback t s)) p c"
      by (intro Cons.IH)
    then show ?thesis by simp
  qed
qed

lemma timers_elapse:
  "timers (elapse s ms) = filter (\<lambda>t. \<not> snd (snd t) \<le> now s + ms) (timers s)"
  by (simp add: elapse_def Let_def fold_timer_callback_preserves)

lemma elapse_as_fold:
  "elapse s ms
     = fold timer_callback (filter (\<lambda>t. snd (snd t) \<le> now s + ms) (timers s))
         (s\<lparr>now := now s + ms,
            timers := filter (\<lambda>t. \<not> snd (snd t) \<le> now s + ms) (timers s)\<rparr>)"
  by (simp add: elapse_def Let_def)

lemma armed_elapse:
  assumes "armed s p c D"
  shows "if D \<le> now s + ms then timed_out (elapse s ms) p c else armed (elapse s ms) p c D"
proof -
  have pend: "promise_state s p = None" and tm: "(p, c, D) \<in> set (timers s)"
    and un: "\<And>t. t \<in> set (timers s) \<Longrightarrow> fst t = p \<Longrightarrow> t = (p, c, D)"
    using assms by (simp_all add: armed_def)
  define s2 where "s2 = s\<lparr>now := now s + ms,
            timers := filter (\<lambda>t. \<not> snd (snd t) \<le> now s + ms) (timers s)\<rparr>"
  define due where "due = filter (\<lambda>t. snd (snd t) \<le> now s + ms) (timers s)"
  have e: "elapse s ms = fold timer_callback due s2"
    unfolding s2_def due_def by (rule elapse_as_fold)
  have p2: "promise_state s2 p = None" using pend by (simp add: s2_def promise_state_def)
  show ?thesis
  proof (cases "D \<le> now s + ms")
    case True
    then have "(p, c, D) \<in> set due" using tm by (simp add: due_def)
    moreover have "t = (p, c, D)" if "t \<in> set due" "fst t = p" for t
    proof -
      from that(1) have "t \<in> set (timers s)" by (simp add: due_def)
      then show ?thesis using that(2) by (rule un)
    qed
    ultimately have "timed_out (fold timer_callback due s2) p c"
      using p2 by (rule due_fold_timer_callback)
    with True e show ?thesis by simp
  next
    case False
    have nd: "fst t \<noteq> p" if "t \<in> set due" for t
    proof
      assume fp: "fst t = p"
      from that have "t \<in> set (timers s)" by (simp add: due_def)
      then have "t = (p, c, D)" using fp by (rule un)
      with that False show False by (simp add: due_def)
    qed
    have "promise_state (fold timer_callback due s2) p = promise_state s2 p"
      using nd by (rule pending_fold_timer_callback)
    then have "promise_state (elapse s ms) p = None"
      by (simp only: e p2)
    moreover have "(p, c, D) \<in> set (timers (elapse s ms))"
      using tm False by (simp add: timers_elapse)
    moreover have "now (elapse s ms) < D" using False by simp
    moreover have "t = (p, c, D)" if "t \<in> set (timers (elapse s ms))" "fst t = p" for t
    proof -
      from that(1) have "t \<in> set (timers s)" by (simp add: timers_elapse)
      then show ?thesis using that(2) by (rule un)
    qed
    ultimately have "armed (elapse s ms) p c D" unfolding armed_def by blast
    with False show ?thesis by simp
  qed
qed

lemma settled_elapse:
  assumes "promise_state s p = Some out"
  shows "promise_state (elapse s ms) p = Some out"
proof -
  have "promise_state (s\<lparr>now := now s + ms,
            timers := filter (\<lambda>t. \<not> snd (snd t) \<le> now s + ms) (timers s)\<rparr>) p = Some out"
    using assms by (simp add: promise_state_def)
  then show ?thesis unfolding elapse_as_fold by (rule settled_fold_timer_callback)
qed

lemma commands_elapse_subset: "set (commands (elapse s ms)) \<subseteq> set (commands s)"
  using commands_fold_timer_callback_subset[of _ "s\<lparr>now := now s + ms,
            timers := filter (\<lambda>t. \<not> snd (snd t) \<le> now s + ms) (timers s)\<rparr>"]
  unfolding elapse_as_fold by simp

lemma timed_out_elapse:
  assumes "timed_out s p c"
  shows "timed_out (elapse s ms) p c"
  using assms commands_elapse_subset[of s ms] by (auto simp: timed_out_def settled_elapse)

lemma timer_inv_elapse:
  assumes "timer_inv s p c D"
  shows "timer_inv (elapse s ms) p c D"
  using assms armed_elapse[of s p c D ms] settled_elapse[of s p Resolved ms]
    timed_out_elapse[of s p c ms]
  unfolding timer_inv_def by (cases "D \<le> now s + ms") auto

lemma timer_inv_step:
  assumes "timer_inv s p c D"
  shows "timer_inv (step K s e) p c D"
  using assms by (cases e) (simp_all add: step_def timer_inv_onData timer_inv_elapse)

lemma timer_inv_run:
  assumes "timer_inv s p c D"
  shows "timer_inv (run K s evs) p c D"
  using assms by (induction evs arbitrary: s) (simp_all add: timer_inv_step)

lemma now_run: "now (run K s evs) = now s + elapsed evs"
proof (induction evs arbitrary: s)
  case Nil
  then show ?case by simp
next
  case (Cons e evs)
  then show ?case by (cases e) (simp_all add: step_def)
qed

lemma settled_step:
  assumes "promise_state s p = Some out"
  shows "promise_state (step K s e) p = Some out"
proof (cases e)
  case (Data d)
  have "promise_state (onData K s d) p = Some out"
  proof (rule onData_invariant[where P = "\<lambda>s. promise_state s p = Some out"])
    show "promise_state (onData_line K s i) p = Some out" if "promise_state s p = Some out"
      for s :: "('a, 'b) ControllerService" and i
      using that by (rule settled_onData_line)
    show "promise_state (s\<lparr>buffer := b\<rparr>) p = Some out" if "promise_state s p = Some out"
      for s :: "('a, 'b) ControllerService" and b
      using that by (simp add: promise_state_def)
    show "promise_state s p = Some out" by (rule assms)
  qed
  with Data show ?thesis by (simp add: step_def)
next
  case (Elapse ms)
  with assms show ?thesis by (simp add: step_def settled_elapse)
qed

lemma settled_run:
  assumes "promise_state s p = Some out"
  shows "promise_state (run K s evs) p = Some out"
  using assms by (induction evs arbitrary: s) (simp_all add: settled_step)

lemma await_events_None_iff:
  "await_events K p s evs = None \<longleftrightarrow> promise_state (run K s evs) p = None"
proof (induction evs arbitrary: s)
  case Nil
  then show ?case by (simp split: option.splits)
next
  case (Cons e evs)
  show ?case
  proof (cases "promise_state s p")
    case None
    then show ?thesis using Cons.IH by simp
  next
    case (Some out)
    then have "promise_state (run K s (e # evs)) p = Some out" by (rule settled_run)
    with Some show ?thesis by simp
  qed
qed

lemma await_events_Some:
  assumes "await_events K p s evs = Some (out, s', evs')"
  shows "promise_state s' p = Some out"
  using assms
proof (induction evs arbitrary: s)
  case Nil
  then show ?case by (simp split: option.splits)
next
  case (Cons e evs)
  then show ?case by (cases "promise_state s p") simp_all
qed

lemma await_events_settles:
  assumes "settles_at K s p evs1 out"
  shows "await_events K p s (evs1 @ evs2) = Some (out, run K s evs1, evs2)"
  using assms
proof (induction evs1 arbitrary: s)
  case Nil
  then have "promise_state s p = Some out" by (simp add: settles_at_def)
  then show ?case by (cases evs2) simp_all
next
  case (Cons e evs1)
  from Cons.prems have fin: "promise_state (run K (step K s e) evs1) p = Some out"
    and pre: "promise_state (run K s (butlast (e # evs1))) p = None"
    by (simp_all add: settles_at_def)
  have pend: "promise_state s p = None"
  proof (cases "promise_state s p")
    case None
    then show ?thesis .
  next
    case (Some a)
    then have "promise_state (run K s (butlast (e # evs1))) p = Some a" by (rule settled_run)
    with pre show ?thesis by simp
  qed
  have "settles_at K (step K s e) p evs1 out"
  proof (cases "evs1 = []")
    case True
    with fin show ?thesis by (simp add: settles_at_def)
  next
    case False
    with pre have "promise_state (run K (step K s e) (butlast evs1)) p = None" by simp
    with fin show ?thesis by (simp add: settles_at_def)
  qed
  then have "await_events K p (step K s e) (evs1 @ evs2) = Some (out, run K (step K s e) evs1, evs2)"
    by (rule Cons.IH)
  with pend show ?case by simp
qed

lemma await_events_split:
  assumes "await_events K p s evs = Some (out, s', evs')"
  shows "\<exists>evs1. evs = evs1 @ evs' \<and> s' = run K s evs1 \<and> settles_at K s p evs1 out"
  using assms
proof (induction evs arbitrary: s)
  case Nil
  then have "promise_state s p = Some out \<and> s' = s \<and> evs' = []"
    by (simp split: option.splits)
  then have "[] = [] @ evs' \<and> s' = run K s [] \<and> settles_at K s p [] out"
    by (simp add: settles_at_def)
  then show ?case by blast
next
  case (Cons e evs)
  show ?case
  proof (cases "promise_state s p")
    case None
    with Cons.prems have "await_events K p (step K s e) evs = Some (out, s', evs')" by simp
    from Cons.IH[OF this] obtain evs1 where 1: "evs = evs1 @ evs'" "s' = run K (step K s e) evs1"
      "settles_at K (step K s e) p evs1 out"
      by blast
    have "settles_at K s p (e # evs1) out"
    proof (cases "evs1 = []")
      case True
      with 1(3) None show ?thesis by (simp add: settles_at_def)
    next
      case False
      with 1(3) show ?thesis by (simp add: settles_at_def)
    qed
    with 1(1,2) have "e # evs = (e # evs1) @ evs' \<and> s' = run K s (e # evs1) \<and>
        settles_at K s p (e # evs1) out"
      by simp
    then show ?thesis by blast
  next
    case (Some a)
    with Cons.prems have "a = out \<and> s' = s \<and> evs' = e # evs" by simp
    with Some have "e # evs = [] @ evs' \<and> s' = run K s [] \<and> settles_at K s p [] out"
      by (simp add: settles_at_def)
    then show ?thesis by blast
  qed
qed

lemma await_settles:
  assumes "events env = evs1 @ evs2" and "settles_at K s p evs1 out"
  shows "await K p (s, env)
         = Some ((case out of Resolved \<Rightarrow> Inr () | Rejected e \<Rightarrow> Inl (Reason e)),
                 (run K s evs1, env\<lparr>events := evs2\<rparr>))"
  using await_events_settles[OF assms(2), of evs2] assms(1) by (simp add: await_def)

lemma await_None_iff:
  "await K p (s, env) = None \<longleftrightarrow> promise_state (run K s (events env)) p = None"
  using await_events_None_iff[of K p s "events env"]
  by (auto simp: await_def split: option.splits)

lemma rejected_is_timed_out:
  assumes "timer_inv s p c D" and "promise_state s p = Some (Rejected e)"
  shows "timed_out s p c \<and> D \<le> now s \<and> e = ''Command timed out''"
  using assms by (auto simp: timer_inv_def armed_def timed_out_def)


lemma armed_timeout_settles:
  assumes "armed s p c D" and "D \<le> now s + n"
  shows "settles_at K s p [Elapse n] (Rejected ''Command timed out'')"
proof -
  from armed_elapse[OF assms(1), of n] assms(2) have "timed_out (elapse s n) p c" by simp
  then have "promise_state (run K s [Elapse n]) p = Some (Rejected ''Command timed out'')"
    by (simp add: timed_out_def step_def)
  moreover have "promise_state (run K s (butlast [Elapse n])) p = None"
    using assms(1) by (simp add: armed_def)
  ultimately show ?thesis by (simp add: settles_at_def)
qed

lemma armed_still_pending:
  assumes "armed s p c D" and "now s + n < D"
  shows "promise_state (run K s [Elapse n]) p = None"
proof -
  from armed_elapse[OF assms(1), of n] assms(2) have "armed (elapse s n) p c D" by simp
  then show ?thesis by (simp add: armed_def step_def)
qed

lemma await_result:
  assumes "await K p (s, env) = Some (r, (s', env'))"
  shows "\<exists>out evs1. promise_state s' p = Some out \<and>
           r = (case out of Resolved \<Rightarrow> Inr () | Rejected e \<Rightarrow> Inl (Reason e)) \<and>
           events env = evs1 @ events env' \<and> s' = run K s evs1"
proof -
  from assms obtain out evs' where a: "await_events K p s (events env) = Some (out, s', evs')"
    and r: "r = (case out of Resolved \<Rightarrow> Inr () | Rejected e \<Rightarrow> Inl (Reason e))"
    and e: "env' = env\<lparr>events := evs'\<rparr>"
    by (auto simp: await_def split: option.splits)
  from await_events_split[OF a] obtain evs1 where
    "events env = evs1 @ evs'" "s' = run K s evs1" "settles_at K s p evs1 out"
    by blast
  with r e show ?thesis by (auto simp: settles_at_def)
qed

lemma run_frame:
  "status (run K s evs) = status s" "serialPort (run K s evs) = serialPort s"
  "currentVersion (run K s evs) = currentVersion s" "stats (run K s evs) = stats s"
  by (induction evs arbitrary: s) simp_all

section \<open>Sending with and without a timeout\<close>

lemma fresh_promise_pending:
  assumes "fresh_promises s"
  shows "promise_state s (npromises s) = None"
proof -
  have "npromises s \<notin> fst ` set (settled s)"
    using assms by (auto simp: fresh_promises_def)
  then show ?thesis by (simp add: promise_state_def map_of_eq_None_iff)
qed

lemma promise_state_send [simp]: "promise_state (snd (send s c T)) p = promise_state s p"
  by (simp add: promise_state_def)

lemma setTimeout_delay_bounds:
  "0 < setTimeout_delay T" "0 < T \<Longrightarrow> setTimeout_delay T \<le> nat T"
  "0 < T \<Longrightarrow> T \<le> 2147483647 \<Longrightarrow> setTimeout_delay T = nat T"
  "2147483647 < T \<Longrightarrow> setTimeout_delay T = 1"
  by (auto simp: setTimeout_delay_def)

lemma send_armed:
  assumes "fresh_promises s" and "0 < T"
  shows "armed (snd (send s c T)) (npromises s) c (now s + setTimeout_delay T)"
proof -
  define D where "D = now s + setTimeout_delay T"
  have tm: "timers (snd (send s c T)) = timers s @ [(npromises s, c, D)]"
    using assms(2) by (simp add: D_def)
  have "t = (npromises s, c, D)"
    if "t \<in> set (timers (snd (send s c T)))" "fst t = npromises s" for t
  proof -
    from that(1) have "t \<in> set (timers s) \<or> t = (npromises s, c, D)"
      unfolding tm by auto
    moreover have "fst t < npromises s" if "t \<in> set (timers s)"
      using that assms(1) by (simp add: fresh_promises_def)
    ultimately show ?thesis using that(2) by auto
  qed
  moreover have "promise_state (snd (send s c T)) (npromises s) = None"
    using fresh_promise_pending[OF assms(1)] by simp
  moreover have "(npromises s, c, D) \<in> set (timers (snd (send s c T)))"
    unfolding tm by simp
  moreover have "now (snd (send s c T)) < D"
    using setTimeout_delay_bounds(1)[of T] by (simp add: D_def)
  ultimately show ?thesis unfolding armed_def D_def by blast
qed

lemma send_untimed:
  assumes "fresh_promises s" and "T \<le> 0"
  shows "untimed (snd (send s c T)) (npromises s)"
proof -
  have "fst t \<noteq> npromises s" if "t \<in> set (timers (snd (send s c T)))" for t
    using that assms by (auto simp: fresh_promises_def)
  moreover have "promise_state (snd (send s c T)) (npromises s) \<noteq> Some (Rejected e)" for e
    using fresh_promise_pending[OF assms(1)] by simp
  ultimately show ?thesis unfolding untimed_def by blast
qed

lemma send_done_link:
  assumes "fresh_promises s" and "fresh_callbacks s" and "c \<notin> set (commands s)"
  shows "done_link (snd (send s c T)) (npromises s) c"
proof -
  have "r = c" if "onDone (heap (snd (send s c T)) r) = Some (npromises s)" for r
  proof (rule ccontr)
    assume "r \<noteq> c"
    with that have "onDone (heap s r) = Some (npromises s)" by simp
    with assms(2) have "npromises s < npromises s" unfolding fresh_callbacks_def by blast
    then show False by simp
  qed
  moreover have "count_list (commands (snd (send s c T))) c \<le> 1"
    using assms(3) by (simp add: count_list_0_iff)
  moreover have "promise_state (snd (send s c T)) (npromises s) \<noteq> Some Resolved"
    using fresh_promise_pending[OF assms(1)] by simp
  ultimately show ?thesis unfolding done_link_def by blast
qed

lemma onDone_heap_onData_line [simp]:
  "onDone (heap (onData_line K s i) r) = onDone (heap s r)"
proof (cases "commands s")
  case Nil
  then show ?thesis using onData_line_empty(1)[OF Nil, of K i] by simp
next
  case (Cons h rest)
  obtain st v called where
    a: "appendLine K (state (heap s h)) (variant (heap s h)) (take i (buffer s)) = (st, v, called)"
    by (cases "appendLine K (state (heap s h)) (variant (heap s h)) (take i (buffer s))")
  show ?thesis using onData_line_head(1)[OF Cons a] by simp
qed

lemma count_list_tl: "count_list (tl xs) c \<le> count_list xs c"
  by (cases xs) simp_all

lemma count_list_filter: "count_list (filter P xs) c \<le> count_list xs c"
  by (induction xs) simp_all

lemma count_list_head_once:
  assumes "count_list (c # rest) c \<le> 1"
  shows "c \<notin> set rest"
  using assms by (simp add: count_list_0_iff)

lemma done_link_onData_line:
  assumes "reports_done K" and "done_link s p c"
  shows "done_link (onData_line K s i) p c"
proof -
  have cl: "\<And>r. onDone (heap s r) = Some p \<Longrightarrow> r = c"
    and cnt: "count_list (commands s) c \<le> 1"
    and res: "promise_state s p = Some Resolved \<Longrightarrow> state (heap s c) = DONE \<and> c \<notin> set (commands s)"
    using assms(2) unfolding done_link_def by blast+
  let ?s' = "onData_line K s i"
  have 1: "r = c" if "onDone (heap ?s' r) = Some p" for r
    using that cl by simp
  have 2: "count_list (commands ?s') c \<le> 1"
    using commands_onData_line[of K s i] cnt count_list_tl[of "commands s" c] by auto
  have 3: "state (heap ?s' c) = DONE \<and> c \<notin> set (commands ?s')"
    if r': "promise_state ?s' p = Some Resolved"
  proof (cases "commands s")
    case Nil
    with r' have "promise_state s p = Some Resolved" by (simp add: promise_state_onData_line)
    with res Nil show ?thesis using onData_line_empty(1,2)[OF Nil, of K i] by simp
  next
    case (Cons h rest)
    obtain st v called where
      a: "appendLine K (state (heap s h)) (variant (heap s h)) (take i (buffer s)) = (st, v, called)"
      by (cases "appendLine K (state (heap s h)) (variant (heap s h)) (take i (buffer s))")
    have called: "called \<longrightarrow> st = DONE"
      using assms(1) a unfolding reports_done_def
      by (metis (mono_tags, lifting) case_prod_conv)
    show ?thesis
    proof (cases "promise_state s p = Some Resolved")
      case True
      with res have d: "state (heap s c) = DONE" "c \<notin> set (commands s)" by simp_all
      then have "h \<noteq> c" using Cons by auto
      then have "state (heap ?s' c) = DONE" using onData_line_head(1)[OF Cons a] d(1) by simp
      moreover have "c \<notin> set (commands ?s')"
        using d(2) commands_onData_line_subset[of K s i] by blast
      ultimately show ?thesis by simp
    next
      case False
      with r' Cons a have now: "called" "onDone (heap s h) = Some p"
        by (auto simp: promise_state_onData_line split: if_splits)
      then have "h = c" using cl by simp
      moreover have "st = DONE" using now(1) called by simp
      ultimately have "state (heap ?s' c) = DONE" "commands ?s' = rest"
        using onData_line_head(1,2)[OF Cons a] by simp_all
      moreover have "c \<notin> set rest" using cnt Cons \<open>h = c\<close> count_list_head_once by metis
      ultimately show ?thesis by simp
    qed
  qed
  from 1 2 3 show ?thesis unfolding done_link_def by blast
qed

lemma resolved_fold_timer_callback:
  assumes "promise_state (fold timer_callback ts s) p = Some Resolved"
  shows "promise_state s p = Some Resolved"
  using assms
proof (induction ts arbitrary: s)
  case Nil
  then show ?case by simp
next
  case (Cons t ts)
  obtain q c d where t: "t = (q, c, d)" by (cases t)
  from Cons have "promise_state (timer_callback t s) p = Some Resolved" by simp
  then show ?case by (simp add: t promise_state_timer_callback split: if_splits)
qed

lemma resolved_elapse:
  assumes "promise_state (elapse s ms) p = Some Resolved"
  shows "promise_state s p = Some Resolved"
proof -
  from assms have "promise_state (s\<lparr>now := now s + ms,
            timers := filter (\<lambda>t. \<not> snd (snd t) \<le> now s + ms) (timers s)\<rparr>) p = Some Resolved"
    unfolding elapse_as_fold by (rule resolved_fold_timer_callback)
  then show ?thesis by (simp add: promise_state_def)
qed

lemma commands_fold_timer_callback:
  "\<exists>P. commands (fold timer_callback ts s) = filter P (commands s)"
proof (induction ts arbitrary: s)
  case Nil
  have "commands s = filter (\<lambda>_. True) (commands s)" by simp
  then show ?case by (simp only: fold_simps) blast
next
  case (Cons t ts)
  obtain q c d where t: "t = (q, c, d)" by (cases t)
  from Cons.IH[of "timer_callback t s"] obtain P where
    "commands (fold timer_callback ts (timer_callback t s)) = filter P (commands (timer_callback t s))"
    by blast
  then have "commands (fold timer_callback (t # ts) s) = filter (\<lambda>x. x \<noteq> c \<and> P x) (commands s)"
    by (simp add: t commands_timer_callback conj_commute)
  then show ?case by blast
qed

lemma done_link_elapse:
  assumes "done_link s p c"
  shows "done_link (elapse s ms) p c"
proof -
  have cl: "\<And>r. onDone (heap s r) = Some p \<Longrightarrow> r = c"
    and cnt: "count_list (commands s) c \<le> 1"
    and res: "promise_state s p = Some Resolved \<Longrightarrow> state (heap s c) = DONE \<and> c \<notin> set (commands s)"
    using assms unfolding done_link_def by blast+
  obtain P where P: "commands (elapse s ms) = filter P (commands s)"
    using commands_fold_timer_callback[of _ "s\<lparr>now := now s + ms,
            timers := filter (\<lambda>t. \<not> snd (snd t) \<le> now s + ms) (timers s)\<rparr>"]
    unfolding elapse_as_fold by auto
  have 1: "r = c" if "onDone (heap (elapse s ms) r) = Some p" for r
    using that cl by simp
  have 2: "count_list (commands (elapse s ms)) c \<le> 1"
    using cnt count_list_filter[of P "commands s" c] by (simp add: P)
  have 3: "state (heap (elapse s ms) c) = DONE \<and> c \<notin> set (commands (elapse s ms))"
    if "promise_state (elapse s ms) p = Some Resolved"
    using res[OF resolved_elapse[OF that]] commands_elapse_subset[of s ms] by auto
  from 1 2 3 show ?thesis unfolding done_link_def by blast
qed

lemma done_link_run:
  assumes "reports_done K" and "done_link s p c"
  shows "done_link (run K s evs) p c"
  using assms(2)
proof (induction evs arbitrary: s)
  case Nil
  then show ?case by simp
next
  case (Cons e evs)
  have "done_link (step K s e) p c"
  proof (cases e)
    case (Data d)
    have "done_link (onData K s d) p c"
    proof (rule onData_invariant[where P = "\<lambda>s. done_link s p c"])
      show "done_link (onData_line K s i) p c" if "done_link s p c"
        for s :: "('a, 'b) ControllerService" and i
        using assms(1) that by (rule done_link_onData_line)
      show "done_link (s\<lparr>buffer := b\<rparr>) p c" if "done_link s p c"
        for s :: "('a, 'b) ControllerService" and b
        using that by (simp add: done_link_def promise_state_def)
      show "done_link s p c" by (rule Cons.prems)
    qed
    with Data show ?thesis by (simp add: step_def)
  next
    case (Elapse ms)
    with Cons.prems show ?thesis by (simp add: step_def done_link_elapse)
  qed
  then show ?case using Cons.IH by simp
qed

lemma untimed_onData_line:
  assumes "untimed s p"
  shows "untimed (onData_line K s i) p"
proof -
  have "fst t \<noteq> p" if "t \<in> set (timers (onData_line K s i))" for t
    using that assms timers_onData_line_subset[of K s i] unfolding untimed_def by blast
  moreover have "promise_state (onData_line K s i) p \<noteq> Some (Rejected e)" for e
  proof (cases "promise_state s p")
    case None
    then show ?thesis
      by (simp add: promise_state_onData_line split: list.splits prod.splits)
  next
    case (Some out)
    then have "promise_state (onData_line K s i) p = Some out" by (rule settled_onData_line)
    with Some assms show ?thesis unfolding untimed_def by simp
  qed
  ultimately show ?thesis unfolding untimed_def by blast
qed

lemma untimed_elapse:
  assumes "untimed s p"
  shows "untimed (elapse s ms) p"
proof -
  have nt: "\<And>t. t \<in> set (timers s) \<Longrightarrow> fst t \<noteq> p"
    and nr: "\<And>e. promise_state s p \<noteq> Some (Rejected e)"
    using assms unfolding untimed_def by blast+
  have "fst t \<noteq> p" if "t \<in> set (timers (elapse s ms))" for t
  proof -
    from that have "t \<in> set (timers s)" by (simp add: timers_elapse)
    then show ?thesis by (rule nt)
  qed
  moreover have "promise_state (elapse s ms) p \<noteq> Some (Rejected e)" for e
  proof -
    have "fst t \<noteq> p" if "t \<in> set (filter (\<lambda>t. snd (snd t) \<le> now s + ms) (timers s))" for t
    proof -
      from that have "t \<in> set (timers s)" by simp
      then show ?thesis by (rule nt)
    qed
    then have "promise_state (elapse s ms) p = promise_state (s\<lparr>now := now s + ms,
            timers := filter (\<lambda>t. \<not> snd (snd t) \<le> now s + ms) (timers s)\<rparr>) p"
      unfolding elapse_as_fold by (rule pending_fold_timer_callback)
    then have "promise_state (elapse s ms) p = promise_state s p"
      by (simp add: promise_state_def)
    with nr show ?thesis by simp
  qed
  ultimately show ?thesis unfolding untimed_def by blast
qed

lemma untimed_run:
  assumes "untimed s p"
  shows "untimed (run K s evs) p"
  using assms
proof (induction evs arbitrary: s)
  case Nil
  then show ?case by simp
next
  case (Cons e evs)
  have "untimed (step K s e) p"
  proof (cases e)
    case (Data d)
    have "untimed (onData K s d) p"
    proof (rule onData_invariant[where P = "\<lambda>s. untimed s p"])
      show "untimed (onData_line K s i) p" if "untimed s p"
        for s :: "('a, 'b) ControllerService" and i
        using that by (rule untimed_onData_line)
      show "untimed (s\<lparr>buffer := b\<rparr>) p" if "untimed s p"
        for s :: "('a, 'b) ControllerService" and b
        using that by (simp add: untimed_def promise_state_def)
      show "untimed s p" by (rule Cons.prems)
    qed
    with Data show ?thesis by (simp add: step_def)
  next
    case (Elapse ms)
    with Cons.prems show ?thesis by (simp add: step_def untimed_elapse)
  qed
  then show ?case using Cons.IH by simp
qed

text \<open>
  C3. Let a command be sent with \<open>timeoutMs > 0\<close> and let events follow during which at
  least \<open>timeoutMs\<close> milliseconds pass. Then the caller's promise is resolved, or it is
  rejected with \<open>"Command timed out"\<close> and the command is no longer in the queue; when
  the command class calls \<open>onDone\<close> only on reaching \<open>DONE\<close>, the command was not queued
  before and it is not \<open>DONE\<close> at the end, it is the latter. The timer \<open>send\<close> arms has the
  delay \<open>setTimeout\<close> makes of \<open>timeoutMs\<close>, which is never more than \<open>timeoutMs\<close>: it is
  \<open>timeoutMs\<close> up to 2147483647, and before that many milliseconds have passed the promise
  is not rejected; beyond 2147483647 it is one millisecond, and the promise is settled
  once a millisecond has passed. With \<open>timeoutMs\<close> zero (or negative) \<open>send\<close> arms no
  timer, and whatever events follow, the promise is never rejected.
\<close>

theorem send_with_timeout:
  assumes "fresh_promises s"
  shows "(0 < T \<and> nat T \<le> elapsed evs \<longrightarrow>
            promise_state (after_send K s cmd T evs) (fst (send s cmd T)) = Some Resolved \<or>
            timed_out (after_send K s cmd T evs) (fst (send s cmd T)) cmd) \<and>
         (0 < T \<and> nat T \<le> elapsed evs \<and> reports_done K \<and> fresh_callbacks s \<and>
          cmd \<notin> set (commands s) \<and> state (heap (after_send K s cmd T evs) cmd) \<noteq> DONE \<longrightarrow>
            timed_out (after_send K s cmd T evs) (fst (send s cmd T)) cmd) \<and>
         (0 < T \<longrightarrow>
            timers (snd (send s cmd T))
              = timers s @ [(fst (send s cmd T), cmd, now s + setTimeout_delay T)] \<and>
            setTimeout_delay T \<le> nat T) \<and>
         (0 < T \<and> T \<le> 2147483647 \<and> elapsed evs < nat T \<longrightarrow>
            setTimeout_delay T = nat T \<and>
            (\<forall>e. promise_state (after_send K s cmd T evs) (fst (send s cmd T)) \<noteq> Some (Rejected e))) \<and>
         (2147483647 < T \<and> 1 \<le> elapsed evs \<longrightarrow>
            promise_state (after_send K s cmd T evs) (fst (send s cmd T)) = Some Resolved \<or>
            timed_out (after_send K s cmd T evs) (fst (send s cmd T)) cmd) \<and>
         (T \<le> 0 \<longrightarrow>
            timers (snd (send s cmd T)) = timers s \<and>
            (\<forall>e. promise_state (after_send K s cmd T evs) (fst (send s cmd T)) \<noteq> Some (Rejected e)))"
proof -
  define p where "p = fst (send s cmd T)"
  define s1 where "s1 = snd (send s cmd T)"
  define s2 where "s2 = after_send K s cmd T evs"
  define D where "D = now s + setTimeout_delay T"
  have p: "p = npromises s" by (simp add: p_def)
  have s2: "s2 = run K s1 evs" by (simp add: s2_def s1_def after_send_def)
  have nw: "now s2 = now s + elapsed evs" by (simp add: s2 now_run s1_def)
  have inv: "timer_inv s2 p cmd D" if "0 < T"
  proof -
    have "armed s1 p cmd D"
      unfolding s1_def p D_def using assms that by (rule send_armed)
    then have "timer_inv s1 p cmd D" by (simp add: timer_inv_def)
    then show ?thesis unfolding s2 by (rule timer_inv_run)
  qed
  have due: "promise_state s2 p = Some Resolved \<or> timed_out s2 p cmd"
    if "0 < T" "setTimeout_delay T \<le> elapsed evs"
  proof -
    have "\<not> armed s2 p cmd D" using that(2) nw by (simp add: armed_def D_def)
    with inv[OF that(1)] show ?thesis by (auto simp: timer_inv_def)
  qed
  have 1: "promise_state s2 p = Some Resolved \<or> timed_out s2 p cmd"
    if "0 < T" "nat T \<le> elapsed evs"
    using that setTimeout_delay_bounds(2)[OF that(1)] by (intro due) simp_all
  have 2: "timed_out s2 p cmd"
    if "0 < T" "nat T \<le> elapsed evs" "reports_done K" "fresh_callbacks s"
      "cmd \<notin> set (commands s)" "state (heap s2 cmd) \<noteq> DONE"
  proof -
    have "done_link s1 p cmd"
      unfolding s1_def p using assms that(4,5) by (rule send_done_link)
    then have "done_link s2 p cmd" unfolding s2 using that(3) by (intro done_link_run)
    with that(6) have "promise_state s2 p \<noteq> Some Resolved" by (auto simp: done_link_def)
    with 1[OF that(1,2)] show ?thesis by simp
  qed
  have 3: "timers s1 = timers s @ [(p, cmd, now s + setTimeout_delay T)] \<and>
           setTimeout_delay T \<le> nat T" if "0 < T"
    using that setTimeout_delay_bounds(2)[OF that] by (simp add: s1_def p)
  have 4: "setTimeout_delay T = nat T \<and> (\<forall>e. promise_state s2 p \<noteq> Some (Rejected e))"
    if "0 < T" "T \<le> 2147483647" "elapsed evs < nat T"
  proof -
    have d: "setTimeout_delay T = nat T" using that(1,2) by (rule setTimeout_delay_bounds(3))
    have "\<not> (D \<le> now s2)" using that(3) nw by (simp add: D_def d)
    with inv[OF that(1)] have "armed s2 p cmd D \<or> promise_state s2 p = Some Resolved"
      by (auto simp: timer_inv_def)
    then have "\<forall>e. promise_state s2 p \<noteq> Some (Rejected e)" by (auto simp: armed_def)
    with d show ?thesis by simp
  qed
  have 5: "promise_state s2 p = Some Resolved \<or> timed_out s2 p cmd"
    if "2147483647 < T" "1 \<le> elapsed evs"
    using that setTimeout_delay_bounds(4)[OF that(1)] by (intro due) simp_all
  have 6: "timers s1 = timers s \<and> (\<forall>e. promise_state s2 p \<noteq> Some (Rejected e))" if "T \<le> 0"
  proof -
    have "untimed s1 p" unfolding s1_def p using assms that by (rule send_untimed)
    then have "untimed s2 p" unfolding s2 by (rule untimed_run)
    then show ?thesis using that by (simp add: untimed_def s1_def)
  qed
  from 1 2 3 4 5 6 show ?thesis unfolding p_def s1_def s2_def by blast
qed

theorem send_with_timeout_witness:
  "fresh_promises example_service \<and> reports_done example_classes \<and>
   fresh_callbacks example_service \<and> 0 \<notin> set (commands example_service) \<and>
   state (heap pending_example 0) = PENDING \<and>
   promise_state pending_example 0 = Some (Rejected ''Command timed out'') \<and>
   commands pending_example = [] \<and>
   timed_out pending_example (fst (send example_service 0 1000)) 0 \<and>
   promise_state (after_send example_classes example_service 0 1000 [Elapse 999]) 0 = None \<and>
   promise_state (after_send example_classes example_service 0 2147483648 [Elapse 1]) 0
     = Some (Rejected ''Command timed out'') \<and>
   promise_state (after_send example_classes example_service 0 0 [Elapse 2000]) 0 = None"
proof -
  have f: "fresh_promises example_service"
    by (simp add: fresh_promises_def example_service_def constructor_def example_runtime_def)
  have r: "reports_done example_classes"
    by (simp add: reports_done_def example_classes_def)
  have c: "fresh_callbacks example_service"
    by (simp add: fresh_callbacks_def example_service_def constructor_def example_runtime_def)
  have q: "0 \<notin> set (commands example_service)"
    by (simp add: example_service_def constructor_def)
  have st: "state (heap pending_example 0) = PENDING" by code_simp
  have pr: "promise_state pending_example 0 = Some (Rejected ''Command timed out'')"
    by code_simp
  have cm: "commands pending_example = []" by code_simp
  have e: "nat 1000 \<le> elapsed [Data (''hello'' @ [LF]), Elapse 1000]" by simp
  from send_with_timeout[OF f, of 1000 "[Data (''hello'' @ [LF]), Elapse 1000]" example_classes 0]
    r c q st e
  have t: "timed_out pending_example (fst (send example_service 0 1000)) 0"
    unfolding pending_example_def by simp
  have b: "promise_state (after_send example_classes example_service 0 1000 [Elapse 999]) 0 = None"
    by code_simp
  have o: "promise_state (after_send example_classes example_service 0 2147483648 [Elapse 1]) 0
     = Some (Rejected ''Command timed out'')"
    by code_simp
  have z: "promise_state (after_send example_classes example_service 0 0 [Elapse 2000]) 0 = None"
    by code_simp
  from f r c q st pr cm t b o z show ?thesis by blast
qed

section \<open>Properties of ping\<close>

lemma new_object_frame [simp]:
  "fst (new_object s c) = nextRef s"
  "status (snd (new_object s c)) = status s" "settled (snd (new_object s c)) = settled s"
  "timers (snd (new_object s c)) = timers s" "npromises (snd (new_object s c)) = npromises s"
  "now (snd (new_object s c)) = now s" "serialPort (snd (new_object s c)) = serialPort s"
  "commands (snd (new_object s c)) = commands s"
  "currentVersion (snd (new_object s c)) = currentVersion s"
  "heap (snd (new_object s c)) = (heap s)(nextRef s := c)"
  by (simp_all add: new_object_def)

lemma fresh_promises_new_object [simp]:
  "fresh_promises (snd (new_object s c)) = fresh_promises s"
  by (simp add: fresh_promises_def)

lemma ping_unfold:
  "ping K (s, env)
     = (case await K (npromises s)
               (snd (send (snd (new_object s (new_PingCommand K))) (nextRef s) 1000), env) of
          None \<Rightarrow> None
        | Some (Inr u, (s3, env3)) \<Rightarrow> Some (Inr (), (s3\<lparr>status := CONNECTED\<rparr>, env3))
        | Some (Inl e, w) \<Rightarrow> Some (Inl No_reason, w))"
  by (simp add: ping_def case_prod_unfold)

lemma ping_sent_frame:
  "commands (ping_sent K s) = commands s @ [nextRef s]"
  "heap (ping_sent K s) (nextRef s) = (new_PingCommand K)\<lparr>onDone := Some (npromises s)\<rparr>"
  "timers (ping_sent K s) = timers s @ [(npromises s, nextRef s, now s + 1000)]"
  "written (serialPort (ping_sent K s))
     = written (serialPort s) @ [command (new_PingCommand K) @ [LF]]"
  "status (ping_sent K s) = status s" "now (ping_sent K s) = now s"
  by (simp_all add: ping_sent_def setTimeout_delay_def SerialPort_write_def)

text \<open>
  C7. \<open>ping\<close> makes a ping command and sends it with a timeout of 1000 ms: the command
  stands at the end of the queue with the callback of its promise, a timer of 1000 ms is
  armed and the port has been handed the text of the command. Then \<open>ping\<close> waits for the
  promise of the command. When the events settle the promise as resolved, \<open>ping\<close> resolves
  at that event, and the status is \<open>CONNECTED\<close>. When they settle it as rejected, \<open>ping\<close>
  rejects at that event, with no reason, and the status is the status of before the call.
  While the promise is pending \<open>ping\<close> has not returned. Conversely, a \<open>ping\<close> that resolved
  left the promise resolved, and a \<open>ping\<close> that rejected left it rejected: by its timer, not
  before 1000 ms had passed, with the command out of the queue. Once 1000 ms have passed
  \<open>ping\<close> has returned; when nothing but time passes it is still waiting before 1000 ms and
  rejects at 1000 ms.
\<close>

theorem ping_outcomes:
  "commands (ping_sent K s) = commands s @ [nextRef s] \<and>
   heap (ping_sent K s) (nextRef s) = (new_PingCommand K)\<lparr>onDone := Some (npromises s)\<rparr> \<and>
   timers (ping_sent K s) = timers s @ [(npromises s, nextRef s, now s + 1000)] \<and>
   written (serialPort (ping_sent K s))
     = written (serialPort s) @ [command (new_PingCommand K) @ [LF]] \<and>
   (\<forall>evs1 evs2. events env = evs1 @ evs2 \<and>
       settles_at K (ping_sent K s) (npromises s) evs1 Resolved \<longrightarrow>
         ping K (s, env)
           = Some (Inr (), ((run K (ping_sent K s) evs1)\<lparr>status := CONNECTED\<rparr>,
                            env\<lparr>events := evs2\<rparr>))) \<and>
   (\<forall>evs1 evs2 e. events env = evs1 @ evs2 \<and>
       settles_at K (ping_sent K s) (npromises s) evs1 (Rejected e) \<longrightarrow>
         ping K (s, env)
           = Some (Inl No_reason, (run K (ping_sent K s) evs1, env\<lparr>events := evs2\<rparr>)) \<and>
         status (run K (ping_sent K s) evs1) = status s) \<and>
   (ping K (s, env) = None \<longleftrightarrow>
      promise_state (run K (ping_sent K s) (events env)) (npromises s) = None) \<and>
   (\<forall>u s' env'. ping K (s, env) = Some (Inr u, (s', env')) \<longrightarrow>
      status s' = CONNECTED \<and> promise_state s' (npromises s) = Some Resolved) \<and>
   (\<forall>e s' env'. ping K (s, env) = Some (Inl e, (s', env')) \<longrightarrow>
      e = No_reason \<and> status s' = status s \<and>
      (\<exists>e'. promise_state s' (npromises s) = Some (Rejected e')) \<and>
      (fresh_promises s \<longrightarrow>
         timed_out s' (npromises s) (nextRef s) \<and> now s + 1000 \<le> now s')) \<and>
   (\<forall>r s' env'. ping K (s, env) = Some (r, (s', env')) \<longrightarrow>
      written (serialPort s') = written (serialPort s) @ [command (new_PingCommand K) @ [LF]]) \<and>
   (fresh_promises s \<and> 1000 \<le> elapsed (events env) \<longrightarrow> ping K (s, env) \<noteq> None) \<and>
   (\<forall>n. fresh_promises s \<and> events env = [Elapse n] \<and> n < 1000 \<longrightarrow> ping K (s, env) = None) \<and>
   (\<forall>n. fresh_promises s \<and> events env = [Elapse n] \<and> 1000 \<le> n \<longrightarrow>
      ping K (s, env)
        = Some (Inl No_reason, (elapse (ping_sent K s) n, env\<lparr>events := []\<rparr>)) \<and>
      status (elapse (ping_sent K s) n) = status s)"
proof -
  define s2 where "s2 = ping_sent K s"
  define p where "p = npromises s"
  have u: "ping K (s, env)
     = (case await K p (s2, env) of
          None \<Rightarrow> None
        | Some (Inr u, (s3, env3)) \<Rightarrow> Some (Inr (), (s3\<lparr>status := CONNECTED\<rparr>, env3))
        | Some (Inl e, w) \<Rightarrow> Some (Inl No_reason, w))"
    by (simp add: ping_unfold s2_def ping_sent_def p_def)
  note fr = ping_sent_frame[of K s, folded s2_def]
  have run_fr: "status (run K s2 evs) = status s \<and>
      written (serialPort (run K s2 evs))
        = written (serialPort s) @ [command (new_PingCommand K) @ [LF]]" for evs
  proof -
    have "status (run K s' evs) = status s' \<and> serialPort (run K s' evs) = serialPort s'"
      for s' :: "('a, 'b) ControllerService"
      by (induction evs arbitrary: s') simp_all
    then show ?thesis using fr(4,5) by simp
  qed
  have 5: "ping K (s, env)
           = Some (Inr (), ((run K s2 evs1)\<lparr>status := CONNECTED\<rparr>, env\<lparr>events := evs2\<rparr>))"
    if "events env = evs1 @ evs2" "settles_at K s2 p evs1 Resolved" for evs1 evs2
    unfolding u using await_settles[OF that] by simp
  have 6: "ping K (s, env) = Some (Inl No_reason, (run K s2 evs1, env\<lparr>events := evs2\<rparr>)) \<and>
           status (run K s2 evs1) = status s"
    if "events env = evs1 @ evs2" "settles_at K s2 p evs1 (Rejected e)" for evs1 evs2 e
    unfolding u using await_settles[OF that] run_fr[of evs1] by simp
  have 7: "ping K (s, env) = None \<longleftrightarrow> promise_state (run K s2 (events env)) p = None"
    unfolding u using await_None_iff[of K p s2 env]
    by (auto split: option.splits sum.splits)
  have armed2: "armed s2 p (nextRef s) (now s + 1000)" if "fresh_promises s"
  proof -
    have "fresh_promises (snd (new_object s (new_PingCommand K)))" using that by simp
    from send_armed[OF this, of 1000 "nextRef s"] show ?thesis
      by (simp add: s2_def ping_sent_def p_def setTimeout_delay_def)
  qed
  have inv: "timer_inv (run K s2 evs) p (nextRef s) (now s + 1000)" if "fresh_promises s" for evs
  proof -
    have "timer_inv s2 p (nextRef s) (now s + 1000)"
      using armed2[OF that] by (simp add: timer_inv_def)
    then show ?thesis by (rule timer_inv_run)
  qed
  have 8: "status s' = CONNECTED \<and> promise_state s' p = Some Resolved"
    if a: "ping K (s, env) = Some (Inr x, (s', env'))" for x s' env'
  proof -
    from a obtain y s3 where b: "await K p (s2, env) = Some (Inr y, (s3, env'))"
      and s': "s' = s3\<lparr>status := CONNECTED\<rparr>"
      unfolding u by (auto split: option.splits sum.splits)
    from await_result[OF b] obtain out where "promise_state s3 p = Some out"
      "Inr y = (case out of Resolved \<Rightarrow> Inr () | Rejected e \<Rightarrow> Inl (Reason e))"
      by blast
    then have "promise_state s3 p = Some Resolved" by (cases out) simp_all
    then show ?thesis by (simp add: s' promise_state_def)
  qed
  have 9: "e = No_reason \<and> status s' = status s \<and>
      (\<exists>e'. promise_state s' p = Some (Rejected e')) \<and>
      (fresh_promises s \<longrightarrow> timed_out s' p (nextRef s) \<and> now s + 1000 \<le> now s')"
    if a: "ping K (s, env) = Some (Inl e, (s', env'))" for e s' env'
  proof -
    from a obtain y where b: "await K p (s2, env) = Some (Inl y, (s', env'))"
      and e: "e = No_reason"
      unfolding u by (auto split: option.splits sum.splits)
    from await_result[OF b] obtain out evs1 where o: "promise_state s' p = Some out"
      "Inl y = (case out of Resolved \<Rightarrow> Inr () | Rejected e \<Rightarrow> Inl (Reason e))"
      "s' = run K s2 evs1"
      by blast
    then obtain e' where rej: "promise_state s' p = Some (Rejected e')" by (cases out) simp_all
    have "timed_out s' p (nextRef s) \<and> now s + 1000 \<le> now s'" if "fresh_promises s"
      using rejected_is_timed_out[OF inv[OF that, of evs1, folded o(3)] rej] by simp
    with e rej run_fr[of evs1] o(3) show ?thesis by simp
  qed
  have 10: "written (serialPort s') = written (serialPort s) @ [command (new_PingCommand K) @ [LF]]"
    if a: "ping K (s, env) = Some (r, (s', env'))" for r s' env'
  proof -
    from a obtain y s3 where b: "await K p (s2, env) = Some (y, (s3, env'))"
      and s': "serialPort s' = serialPort s3"
      unfolding u by (auto split: option.splits sum.splits)
    from await_result[OF b] obtain evs1 where "s3 = run K s2 evs1" by blast
    with run_fr[of evs1] s' show ?thesis by simp
  qed
  have 11: "ping K (s, env) \<noteq> None" if "fresh_promises s" "1000 \<le> elapsed (events env)"
  proof -
    have "now (run K s2 (events env)) = now s + elapsed (events env)"
      by (simp add: now_run fr(6))
    with inv[OF that(1), of "events env"] that(2)
    have "promise_state (run K s2 (events env)) p \<noteq> None"
      by (auto simp: timer_inv_def armed_def timed_out_def)
    with 7 show ?thesis by simp
  qed
  have 12: "ping K (s, env) = None" if "fresh_promises s" "events env = [Elapse n]" "n < 1000" for n
  proof -
    have "now s2 + n < now s + 1000" using that(3) unfolding fr(6) by linarith
    with armed2[OF that(1)] have "promise_state (run K s2 [Elapse n]) p = None"
      by (rule armed_still_pending)
    with 7 that(2) show ?thesis by simp
  qed
  have 13: "ping K (s, env) = Some (Inl No_reason, (elapse s2 n, env\<lparr>events := []\<rparr>)) \<and>
            status (elapse s2 n) = status s"
    if "fresh_promises s" "events env = [Elapse n]" "1000 \<le> n" for n
  proof -
    have "now s + 1000 \<le> now s2 + n" using that(3) unfolding fr(6) by linarith
    with armed2[OF that(1)]
    have "settles_at K s2 p [Elapse n] (Rejected ''Command timed out'')"
      by (rule armed_timeout_settles)
    from 6[OF _ this, of "[]"] that(2) show ?thesis by (simp add: step_def)
  qed
  have c5: "\<forall>evs1 evs2. events env = evs1 @ evs2 \<and> settles_at K s2 p evs1 Resolved \<longrightarrow>
         ping K (s, env)
           = Some (Inr (), ((run K s2 evs1)\<lparr>status := CONNECTED\<rparr>, env\<lparr>events := evs2\<rparr>))"
    using 5 by blast
  have c6: "\<forall>evs1 evs2 e. events env = evs1 @ evs2 \<and> settles_at K s2 p evs1 (Rejected e) \<longrightarrow>
         ping K (s, env) = Some (Inl No_reason, (run K s2 evs1, env\<lparr>events := evs2\<rparr>)) \<and>
         status (run K s2 evs1) = status s"
    using 6 by blast
  have c8: "\<forall>u s' env'. ping K (s, env) = Some (Inr u, (s', env')) \<longrightarrow>
      status s' = CONNECTED \<and> promise_state s' p = Some Resolved"
    using 8 by blast
  have c9: "\<forall>e s' env'. ping K (s, env) = Some (Inl e, (s', env')) \<longrightarrow>
      e = No_reason \<and> status s' = status s \<and>
      (\<exists>e'. promise_state s' p = Some (Rejected e')) \<and>
      (fresh_promises s \<longrightarrow> timed_out s' p (nextRef s) \<and> now s + 1000 \<le> now s')"
    using 9 by blast
  have c10: "\<forall>r s' env'. ping K (s, env) = Some (r, (s', env')) \<longrightarrow>
      written (serialPort s') = written (serialPort s) @ [command (new_PingCommand K) @ [LF]]"
    using 10 by blast
  have c11: "fresh_promises s \<and> 1000 \<le> elapsed (events env) \<longrightarrow> ping K (s, env) \<noteq> None"
    using 11 by blast
  have c12: "\<forall>n. fresh_promises s \<and> events env = [Elapse n] \<and> n < 1000 \<longrightarrow> ping K (s, env) = None"
    using 12 by blast
  have c13: "\<forall>n. fresh_promises s \<and> events env = [Elapse n] \<and> 1000 \<le> n \<longrightarrow>
      ping K (s, env) = Some (Inl No_reason, (elapse s2 n, env\<lparr>events := []\<rparr>)) \<and>
      status (elapse s2 n) = status s"
    using 13 by blast
  note all = fr(1,2,3,4) c5 c6 7 c8 c9 c10 c11 c12 c13
  show ?thesis by (intro conjI) (fact all[unfolded s2_def p_def])+
qed

theorem ping_outcomes_witness:
  "fresh_promises example_service \<and> status example_service = DISCONNECTED \<and>
   settles_at example_classes (ping_sent example_classes example_service)
     (npromises example_service) (events reply_environment) Resolved \<and>
   map_option (\<lambda>(r, s', env'). (r, status s', events env'))
       (ping example_classes (example_service, reply_environment))
     = Some (Inr (), CONNECTED, []) \<and>
   events quiet_environment = [Elapse 1000] \<and>
   map_option (\<lambda>(r, s', env'). (r, status s', events env'))
       (ping example_classes (example_service, quiet_environment))
     = Some (Inl No_reason, DISCONNECTED, []) \<and>
   ping example_classes (example_service, quiet_environment\<lparr>events := [Elapse 999]\<rparr>) = None"
proof -
  have f: "fresh_promises example_service"
    by (simp add: fresh_promises_def example_service_def constructor_def example_runtime_def)
  have d: "status example_service = DISCONNECTED"
    by (simp add: example_service_def constructor_def)
  have a: "settles_at example_classes (ping_sent example_classes example_service)
     (npromises example_service) (events reply_environment) Resolved"
    unfolding settles_at_def by code_simp
  have e: "events quiet_environment = [Elapse 1000]"
    by (simp add: quiet_environment_def)
  note t = ping_outcomes[of example_classes example_service reply_environment,
      THEN conjunct2, THEN conjunct2, THEN conjunct2, THEN conjunct2, THEN conjunct1,
      rule_format, of "events reply_environment" "[]"]
  from t a have "ping example_classes (example_service, reply_environment)
      = Some (Inr (), ((run example_classes (ping_sent example_classes example_service)
                          (events reply_environment))\<lparr>status := CONNECTED\<rparr>,
                       reply_environment\<lparr>events := []\<rparr>))"
    by simp
  then have r: "map_option (\<lambda>(r, s', env'). (r, status s', events env'))
       (ping example_classes (example_service, reply_environment))
     = Some (Inr (), CONNECTED, [])"
    by simp
  note q = ping_outcomes[of example_classes example_service quiet_environment,
      THEN conjunct2, THEN conjunct2, THEN conjunct2, THEN conjunct2, THEN conjunct2,
      THEN conjunct2, THEN conjunct2, THEN conjunct2, THEN conjunct2, THEN conjunct2,
      THEN conjunct2, THEN conjunct2, rule_format, of 1000]
  from q f e have "ping example_classes (example_service, quiet_environment)
      = Some (Inl No_reason, (elapse (ping_sent example_classes example_service) 1000,
                              quiet_environment\<lparr>events := []\<rparr>)) \<and>
      status (elapse (ping_sent example_classes example_service) 1000) = status example_service"
    by simp
  with d have c: "map_option (\<lambda>(r, s', env'). (r, status s', events env'))
       (ping example_classes (example_service, quiet_environment))
     = Some (Inl No_reason, DISCONNECTED, [])"
    by simp
  note w = ping_outcomes[of example_classes example_service
      "quiet_environment\<lparr>events := [Elapse 999]\<rparr>",
      THEN conjunct2, THEN conjunct2, THEN conjunct2, THEN conjunct2, THEN conjunct2,
      THEN conjunct2, THEN conjunct2, THEN conjunct2, THEN conjunct2, THEN conjunct2,
      THEN conjunct2, THEN conjunct1, rule_format, of 999]
  from w f have n: "ping example_classes (example_service, quiet_environment\<lparr>events := [Elapse 999]\<rparr>)
      = None"
    by simp
  from f d a r e c n show ?thesis by blast
qed

section \<open>Properties of connecting with the port open\<close>

lemma getStats_sent_frame:
  "commands (getStats_sent K s) = commands s @ [nextRef s]"
  "heap (getStats_sent K s) (nextRef s) = (new_GetStatsCommand K)\<lparr>onDone := Some (npromises s)\<rparr>"
  "timers (getStats_sent K s) = timers s @ [(npromises s, nextRef s, now s + 5000)]"
  "written (serialPort (getStats_sent K s))
     = written (serialPort s) @ [command (new_GetStatsCommand K) @ [LF]]"
  "status (getStats_sent K s) = status s" "now (getStats_sent K s) = now s"
  "serialPort (getStats_sent K s)
     = (serialPort s)\<lparr>written := written (serialPort s) @ [command (new_GetStatsCommand K) @ [LF]]\<rparr>"
  "currentVersion (getStats_sent K s) = currentVersion s" "stats (getStats_sent K s) = stats s"
  by (simp_all add: getStats_sent_def setTimeout_delay_def SerialPort_write_def new_object_def)

lemma connect_open_unfold:
  assumes "isOpen (serialPort s)" and "stats s = None" and "truthy (currentVersion s)"
  shows "connect K (s, env)
     = (case await K (npromises s) (getStats_sent K s, env) of
          None \<Rightarrow> None
        | Some (Inr u, (s3, env3)) \<Rightarrow>
            Some (Inr (status s3),
                  (s3\<lparr>stats := Some (command_getStats K (heap s3 (nextRef s)))\<rparr>, env3))
        | Some (Inl e, (s3, env3)) \<Rightarrow> Some (Inr (status s3), (s3, env3)))"
  using assms
  by (simp add: connect_def connect_getStats_def andThen_def getStats_def getStats_sent_def
      new_object_def case_prod_unfold Let_def split: option.splits sum.splits)

text \<open>
  C9, as the specification words it: with the port open, \<open>connect\<close> returns the status and
  leaves the service as it was. This fails for a service that knows the version and has no
  statistics: \<open>connect\<close> still calls \<open>getStats\<close>, which sends the statistics command to
  the port and stores the statistics of the reply.
\<close>

theorem connect_when_open_counterexample:
  "isOpen (serialPort connected_service) \<and>
   map_option (\<lambda>(r, s', env'). (r, stats s', written (serialPort s')))
       (connect example_classes (connected_service, reply_environment))
     = Some (Inr CONNECTED, Some [''[MSG:Heap 27000]''], [''$SS'' @ [LF]]) \<and>
   stats connected_service = None \<and> written (serialPort connected_service) = [] \<and>
   connect example_classes (connected_service, reply_environment)
     \<noteq> Some (Inr (status connected_service), (connected_service, reply_environment))"
proof -
  have 1: "isOpen (serialPort connected_service)" "stats connected_service = None"
    "written (serialPort connected_service) = []"
    by (simp_all add: connected_service_def example_service_def constructor_def example_port_def)
  have 2: "map_option (\<lambda>(r, s', env'). (r, stats s', written (serialPort s')))
       (connect example_classes (connected_service, reply_environment))
     = Some (Inr CONNECTED, Some [''[MSG:Heap 27000]''], [''$SS'' @ [LF]])"
    by code_simp
  have 3: "connect example_classes (connected_service, reply_environment)
     \<noteq> Some (Inr (status connected_service), (connected_service, reply_environment))"
  proof
    assume "connect example_classes (connected_service, reply_environment)
      = Some (Inr (status connected_service), (connected_service, reply_environment))"
    with 2 have "stats connected_service = Some [''[MSG:Heap 27000]'']" by simp
    with 1(2) show False by simp
  qed
  from 1 2 3 show ?thesis by blast
qed

text \<open>
  C9, amended. With the port open, \<open>connect\<close> opens nothing, sends no reset, runs no
  handshake and registers no reader or listener; it asks no answer of the transport, the
  clock or the buffered reader. It calls \<open>getStats\<close>. When the statistics are known or the
  version is not, it returns the status at once and the service is as it was. Otherwise it
  makes a statistics command and sends it with a timeout of 5000 ms: the command stands at
  the end of the queue with the callback of its promise, a timer of 5000 ms is armed and
  the port has been handed the text of the command and nothing else. Then it waits for
  the promise of the command. When the events settle the promise as resolved, \<open>connect\<close>
  returns the status at that event, and the statistics of the command are stored. When
  they settle it as rejected, \<open>connect\<close> returns the status at that event, no statistics
  are stored, and the command has left the queue, not before 5000 ms had passed. While
  the promise is pending \<open>connect\<close> has not returned; once 5000 ms have passed it has. When
  it returns, it returns the status, which is unchanged as are the version, the readers
  and the listeners of the port, and the statistics are as before or those of the
  resolved command.
\<close>

theorem connect_when_open:
  assumes "isOpen (serialPort s)"
  shows "(stats s \<noteq> None \<or> \<not> truthy (currentVersion s) \<longrightarrow>
            connect K (s, env) = Some (Inr (status s), (s, env))) \<and>
         (stats s = None \<and> truthy (currentVersion s) \<longrightarrow>
            commands (getStats_sent K s) = commands s @ [nextRef s] \<and>
            heap (getStats_sent K s) (nextRef s)
              = (new_GetStatsCommand K)\<lparr>onDone := Some (npromises s)\<rparr> \<and>
            timers (getStats_sent K s) = timers s @ [(npromises s, nextRef s, now s + 5000)] \<and>
            serialPort (getStats_sent K s)
              = (serialPort s)\<lparr>written := written (serialPort s) @
                                  [command (new_GetStatsCommand K) @ [LF]]\<rparr> \<and>
            (\<forall>evs1 evs2. events env = evs1 @ evs2 \<and>
               settles_at K (getStats_sent K s) (npromises s) evs1 Resolved \<longrightarrow>
                 connect K (s, env)
                   = Some (Inr (status s),
                       ((run K (getStats_sent K s) evs1)
                          \<lparr>stats := Some (command_getStats K
                                     (heap (run K (getStats_sent K s) evs1) (nextRef s)))\<rparr>,
                        env\<lparr>events := evs2\<rparr>))) \<and>
            (\<forall>evs1 evs2 e. events env = evs1 @ evs2 \<and>
               settles_at K (getStats_sent K s) (npromises s) evs1 (Rejected e) \<longrightarrow>
                 connect K (s, env)
                   = Some (Inr (status s),
                       (run K (getStats_sent K s) evs1, env\<lparr>events := evs2\<rparr>)) \<and>
                 stats (run K (getStats_sent K s) evs1) = None \<and>
                 (fresh_promises s \<longrightarrow>
                    nextRef s \<notin> set (commands (run K (getStats_sent K s) evs1)) \<and>
                    now s + 5000 \<le> now (run K (getStats_sent K s) evs1))) \<and>
            (connect K (s, env) = None \<longleftrightarrow>
               promise_state (run K (getStats_sent K s) (events env)) (npromises s) = None) \<and>
            (fresh_promises s \<and> 5000 \<le> elapsed (events env) \<longrightarrow> connect K (s, env) \<noteq> None) \<and>
            (\<forall>n. fresh_promises s \<and> events env = [Elapse n] \<and> n < 5000 \<longrightarrow>
               connect K (s, env) = None) \<and>
            (\<forall>n. fresh_promises s \<and> events env = [Elapse n] \<and> 5000 \<le> n \<longrightarrow>
               connect K (s, env)
                 = Some (Inr (status s), (elapse (getStats_sent K s) n, env\<lparr>events := []\<rparr>)) \<and>
               stats (elapse (getStats_sent K s) n) = None \<and>
               nextRef s \<notin> set (commands (elapse (getStats_sent K s) n)))) \<and>
         (\<forall>r s' env'. connect K (s, env) = Some (r, (s', env')) \<longrightarrow>
            r = Inr (status s) \<and> status s' = status s \<and>
            currentVersion s' = currentVersion s \<and>
            serialPort s' = (serialPort s)\<lparr>written := written (serialPort s) @
               (if stats s = None \<and> truthy (currentVersion s)
                then [command (new_GetStatsCommand K) @ [LF]] else [])\<rparr> \<and>
            (stats s' = stats s \<or>
             promise_state s' (npromises s) = Some Resolved \<and>
             stats s' = Some (command_getStats K (heap s' (nextRef s)))) \<and>
            transport env' = transport env \<and> clock env' = clock env \<and> reads env' = reads env)"
proof (cases "stats s = None \<and> truthy (currentVersion s)")
  case False
  then have "connect K (s, env) = Some (Inr (status s), (s, env))"
    using assms by (auto simp: connect_def connect_getStats_def andThen_def getStats_def)
  with False show ?thesis by auto
next
  case True
  define s2 where "s2 = getStats_sent K s"
  define p where "p = npromises s"
  define c where "c = nextRef s"
  note fr = getStats_sent_frame[of K s, folded s2_def]
  have u: "connect K (s, env)
     = (case await K p (s2, env) of
          None \<Rightarrow> None
        | Some (Inr u, (s3, env3)) \<Rightarrow>
            Some (Inr (status s3), (s3\<lparr>stats := Some (command_getStats K (heap s3 c))\<rparr>, env3))
        | Some (Inl e, (s3, env3)) \<Rightarrow> Some (Inr (status s3), (s3, env3)))"
    unfolding s2_def p_def c_def using assms True by (intro connect_open_unfold) simp_all
  have rf: "status (run K s2 evs) = status s" "stats (run K s2 evs) = None"
    "currentVersion (run K s2 evs) = currentVersion s"
    "serialPort (run K s2 evs)
       = (serialPort s)\<lparr>written := written (serialPort s) @
                           [command (new_GetStatsCommand K) @ [LF]]\<rparr>" for evs
    using True by (simp_all add: run_frame fr)
  have armed2: "armed s2 p c (now s + 5000)" if "fresh_promises s"
  proof -
    have "fresh_promises (snd (new_object s (new_GetStatsCommand K)))" using that by simp
    from send_armed[OF this, of 5000 "nextRef s"] show ?thesis
      by (simp add: s2_def getStats_sent_def p_def c_def setTimeout_delay_def)
  qed
  have inv: "timer_inv (run K s2 evs) p c (now s + 5000)" if "fresh_promises s" for evs
  proof -
    have "timer_inv s2 p c (now s + 5000)"
      using armed2[OF that] by (simp add: timer_inv_def)
    then show ?thesis by (rule timer_inv_run)
  qed
  have 1: "connect K (s, env)
           = Some (Inr (status s),
               ((run K s2 evs1)\<lparr>stats := Some (command_getStats K (heap (run K s2 evs1) c))\<rparr>,
                env\<lparr>events := evs2\<rparr>))"
    if "events env = evs1 @ evs2" "settles_at K s2 p evs1 Resolved" for evs1 evs2
    unfolding u using await_settles[OF that] rf(1)[of evs1] by simp
  have 2: "connect K (s, env) = Some (Inr (status s), (run K s2 evs1, env\<lparr>events := evs2\<rparr>)) \<and>
           stats (run K s2 evs1) = None \<and>
           (fresh_promises s \<longrightarrow>
              c \<notin> set (commands (run K s2 evs1)) \<and> now s + 5000 \<le> now (run K s2 evs1))"
    if a: "events env = evs1 @ evs2" "settles_at K s2 p evs1 (Rejected e)" for evs1 evs2 e
  proof -
    have "connect K (s, env) = Some (Inr (status s), (run K s2 evs1, env\<lparr>events := evs2\<rparr>))"
      unfolding u using await_settles[OF a] rf(1)[of evs1] by simp
    moreover have "c \<notin> set (commands (run K s2 evs1)) \<and> now s + 5000 \<le> now (run K s2 evs1)"
      if "fresh_promises s"
    proof -
      from a(2) have "promise_state (run K s2 evs1) p = Some (Rejected e)"
        by (simp add: settles_at_def)
      from rejected_is_timed_out[OF inv[OF that] this] show ?thesis
        by (simp add: timed_out_def)
    qed
    ultimately show ?thesis using rf(2)[of evs1] by blast
  qed
  have 3: "connect K (s, env) = None \<longleftrightarrow> promise_state (run K s2 (events env)) p = None"
    unfolding u using await_None_iff[of K p s2 env]
    by (auto split: option.splits sum.splits)
  have 4: "connect K (s, env) \<noteq> None" if "fresh_promises s" "5000 \<le> elapsed (events env)"
  proof -
    have "now (run K s2 (events env)) = now s + elapsed (events env)"
      by (simp add: now_run fr(6))
    with inv[OF that(1), of "events env"] that(2)
    have "promise_state (run K s2 (events env)) p \<noteq> None"
      by (auto simp: timer_inv_def armed_def timed_out_def)
    with 3 show ?thesis by simp
  qed
  have 6: "connect K (s, env) = None" if "fresh_promises s" "events env = [Elapse n]" "n < 5000" for n
  proof -
    have "now s2 + n < now s + 5000" using that(3) unfolding fr(6) by linarith
    with armed2[OF that(1)] have "promise_state (run K s2 [Elapse n]) p = None"
      by (rule armed_still_pending)
    with 3 that(2) show ?thesis by simp
  qed
  have 7: "connect K (s, env) = Some (Inr (status s), (elapse s2 n, env\<lparr>events := []\<rparr>)) \<and>
           stats (elapse s2 n) = None \<and> c \<notin> set (commands (elapse s2 n))"
    if "fresh_promises s" "events env = [Elapse n]" "5000 \<le> n" for n
  proof -
    have "now s + 5000 \<le> now s2 + n" using that(3) unfolding fr(6) by linarith
    with armed2[OF that(1)]
    have "settles_at K s2 p [Elapse n] (Rejected ''Command timed out'')"
      by (rule armed_timeout_settles)
    from 2[OF _ this, of "[]"] that(1,2) show ?thesis by (simp add: step_def)
  qed
  have 5: "r = Inr (status s) \<and> status s' = status s \<and>
            currentVersion s' = currentVersion s \<and>
            serialPort s' = (serialPort s)\<lparr>written := written (serialPort s) @
               [command (new_GetStatsCommand K) @ [LF]]\<rparr> \<and>
            (stats s' = stats s \<or>
             promise_state s' p = Some Resolved \<and>
             stats s' = Some (command_getStats K (heap s' c))) \<and>
            transport env' = transport env \<and> clock env' = clock env \<and> reads env' = reads env"
    if a: "connect K (s, env) = Some (r, (s', env'))" for r s' env'
  proof -
    from a obtain r3 s3 env3 where b: "await K p (s2, env) = Some (r3, (s3, env3))"
      unfolding u by (cases "await K p (s2, env)") auto
    from await_result[OF b] obtain out evs1 where o: "promise_state s3 p = Some out"
      "r3 = (case out of Resolved \<Rightarrow> Inr () | Rejected e \<Rightarrow> Inl (Reason e))"
      "s3 = run K s2 evs1"
      by blast
    from await_frame[OF b] have e3: "transport env3 = transport env" "clock env3 = clock env"
      "reads env3 = reads env"
      by simp_all
    show ?thesis
    proof (cases out)
      case Resolved
      with o(2) b a have "Some (r, (s', env'))
          = Some (Inr (status s3), (s3\<lparr>stats := Some (command_getStats K (heap s3 c))\<rparr>, env3))"
        unfolding u by simp
      then have "r = Inr (status s3)" "s' = s3\<lparr>stats := Some (command_getStats K (heap s3 c))\<rparr>"
        "env' = env3"
        by simp_all
      with o(1,3) Resolved rf[of evs1] e3 show ?thesis by (simp add: promise_state_def)
    next
      case (Rejected e)
      with o(2) b a have "Some (r, (s', env')) = Some (Inr (status s3), (s3, env3))"
        unfolding u by auto
      then have "r = Inr (status s3)" "s' = s3" "env' = env3" by simp_all
      with o(3) rf[of evs1] e3 True show ?thesis by simp
    qed
  qed
  show ?thesis
  proof (intro conjI)
    show "stats s \<noteq> None \<or> \<not> truthy (currentVersion s) \<longrightarrow>
            connect K (s, env) = Some (Inr (status s), (s, env))"
      using True by simp
  next
    have c1: "\<forall>evs1 evs2. events env = evs1 @ evs2 \<and> settles_at K s2 p evs1 Resolved \<longrightarrow>
                 connect K (s, env)
                   = Some (Inr (status s),
                       ((run K s2 evs1)
                          \<lparr>stats := Some (command_getStats K (heap (run K s2 evs1) c))\<rparr>,
                        env\<lparr>events := evs2\<rparr>))"
      using 1 by blast
    have c2: "\<forall>evs1 evs2 e. events env = evs1 @ evs2 \<and>
               settles_at K s2 p evs1 (Rejected e) \<longrightarrow>
                 connect K (s, env)
                   = Some (Inr (status s), (run K s2 evs1, env\<lparr>events := evs2\<rparr>)) \<and>
                 stats (run K s2 evs1) = None \<and>
                 (fresh_promises s \<longrightarrow>
                    c \<notin> set (commands (run K s2 evs1)) \<and>
                    now s + 5000 \<le> now (run K s2 evs1))"
      using 2 by blast
    have c4: "fresh_promises s \<and> 5000 \<le> elapsed (events env) \<longrightarrow> connect K (s, env) \<noteq> None"
      using 4 by blast
    have c6: "\<forall>n. fresh_promises s \<and> events env = [Elapse n] \<and> n < 5000 \<longrightarrow>
               connect K (s, env) = None"
      using 6 by blast
    have c7: "\<forall>n. fresh_promises s \<and> events env = [Elapse n] \<and> 5000 \<le> n \<longrightarrow>
               connect K (s, env)
                 = Some (Inr (status s), (elapse s2 n, env\<lparr>events := []\<rparr>)) \<and>
               stats (elapse s2 n) = None \<and> c \<notin> set (commands (elapse s2 n))"
      using 7 by blast
    note all = fr(1,2,3,7) c1 c2 3 c4 c6 c7
    show "stats s = None \<and> truthy (currentVersion s) \<longrightarrow>
            commands (getStats_sent K s) = commands s @ [nextRef s] \<and>
            heap (getStats_sent K s) (nextRef s)
              = (new_GetStatsCommand K)\<lparr>onDone := Some (npromises s)\<rparr> \<and>
            timers (getStats_sent K s) = timers s @ [(npromises s, nextRef s, now s + 5000)] \<and>
            serialPort (getStats_sent K s)
              = (serialPort s)\<lparr>written := written (serialPort s) @
                                  [command (new_GetStatsCommand K) @ [LF]]\<rparr> \<and>
            (\<forall>evs1 evs2. events env = evs1 @ evs2 \<and>
               settles_at K (getStats_sent K s) (npromises s) evs1 Resolved \<longrightarrow>
                 connect K (s, env)
                   = Some (Inr (status s),
                       ((run K (getStats_sent K s) evs1)
                          \<lparr>stats := Some (command_getStats K
                                     (heap (run K (getStats_sent K s) evs1) (nextRef s)))\<rparr>,
                        env\<lparr>events := evs2\<rparr>))) \<and>
            (\<forall>evs1 evs2 e. events env = evs1 @ evs2 \<and>
               settles_at K (getStats_sent K s) (npromises s) evs1 (Rejected e) \<longrightarrow>
                 connect K (s, env)
                   = Some (Inr (status s),
                       (run K (getStats_sent K s) evs1, env\<lparr>events := evs2\<rparr>)) \<and>
                 stats (run K (getStats_sent K s) evs1) = None \<and>
                 (fresh_promises s \<longrightarrow>
                    nextRef s \<notin> set (commands (run K (getStats_sent K s) evs1)) \<and>
                    now s + 5000 \<le> now (run K (getStats_sent K s) evs1))) \<and>
            (connect K (s, env) = None \<longleftrightarrow>
               promise_state (run K (getStats_sent K s) (events env)) (npromises s) = None) \<and>
            (fresh_promises s \<and> 5000 \<le> elapsed (events env) \<longrightarrow> connect K (s, env) \<noteq> None) \<and>
            (\<forall>n. fresh_promises s \<and> events env = [Elapse n] \<and> n < 5000 \<longrightarrow>
               connect K (s, env) = None) \<and>
            (\<forall>n. fresh_promises s \<and> events env = [Elapse n] \<and> 5000 \<le> n \<longrightarrow>
               connect K (s, env)
                 = Some (Inr (status s), (elapse (getStats_sent K s) n, env\<lparr>events := []\<rparr>)) \<and>
               stats (elapse (getStats_sent K s) n) = None \<and>
               nextRef s \<notin> set (commands (elapse (getStats_sent K s) n)))"
      by (rule impI, intro conjI) (rule all[unfolded s2_def p_def c_def])+
  next
    show "\<forall>r s' env'. connect K (s, env) = Some (r, (s', env')) \<longrightarrow>
            r = Inr (status s) \<and> status s' = status s \<and>
            currentVersion s' = currentVersion s \<and>
            serialPort s' = (serialPort s)\<lparr>written := written (serialPort s) @
               (if stats s = None \<and> truthy (currentVersion s)
                then [command (new_GetStatsCommand K) @ [LF]] else [])\<rparr> \<and>
            (stats s' = stats s \<or>
             promise_state s' (npromises s) = Some Resolved \<and>
             stats s' = Some (command_getStats K (heap s' (nextRef s)))) \<and>
            transport env' = transport env \<and> clock env' = clock env \<and> reads env' = reads env"
    proof (intro allI impI)
      fix r s' env'
      assume "connect K (s, env) = Some (r, (s', env'))"
      from 5[OF this] True
      show "r = Inr (status s) \<and> status s' = status s \<and>
            currentVersion s' = currentVersion s \<and>
            serialPort s' = (serialPort s)\<lparr>written := written (serialPort s) @
               (if stats s = None \<and> truthy (currentVersion s)
                then [command (new_GetStatsCommand K) @ [LF]] else [])\<rparr> \<and>
            (stats s' = stats s \<or>
             promise_state s' (npromises s) = Some Resolved \<and>
             stats s' = Some (command_getStats K (heap s' (nextRef s)))) \<and>
            transport env' = transport env \<and> clock env' = clock env \<and> reads env' = reads env"
        by (simp add: p_def c_def)
    qed
  qed
qed

theorem connect_when_open_witness:
  "isOpen (serialPort connected_service) \<and> stats connected_service = None \<and>
   truthy (currentVersion connected_service) \<and> fresh_promises connected_service \<and>
   settles_at example_classes (getStats_sent example_classes connected_service)
     (npromises connected_service) (events reply_environment) Resolved \<and>
   map_option (\<lambda>(r, s', env'). (r, stats s', commands s', events env'))
       (connect example_classes (connected_service, reply_environment))
     = Some (Inr CONNECTED, Some [''[MSG:Heap 27000]''], [], []) \<and>
   events quiet_environment = [Elapse 1000] \<and>
   connect example_classes (connected_service, quiet_environment) = None \<and>
   events idle_environment = [Elapse 5000] \<and>
   map_option (\<lambda>(r, s', env'). (r, stats s', events env'))
       (connect example_classes (connected_service, idle_environment))
     = Some (Inr CONNECTED, None, []) \<and>
   isOpen (serialPort (connected_service\<lparr>stats := Some []\<rparr>)) \<and>
   stats (connected_service\<lparr>stats := Some []\<rparr>) \<noteq> None \<and>
   connect example_classes (connected_service\<lparr>stats := Some []\<rparr>, reply_environment)
     = Some (Inr CONNECTED, (connected_service\<lparr>stats := Some []\<rparr>, reply_environment))"
proof -
  have o: "isOpen (serialPort connected_service)" "stats connected_service = None"
    "truthy (currentVersion connected_service)" "status connected_service = CONNECTED"
    by (simp_all add: connected_service_def example_service_def constructor_def example_port_def
        truthy_def)
  have f: "fresh_promises connected_service"
    by (simp add: fresh_promises_def connected_service_def example_service_def constructor_def
        example_runtime_def)
  have e: "events quiet_environment = [Elapse 1000]" "events idle_environment = [Elapse 5000]"
    by (simp_all add: quiet_environment_def idle_environment_def)
  have a: "settles_at example_classes (getStats_sent example_classes connected_service)
     (npromises connected_service) (events reply_environment) Resolved"
    unfolding settles_at_def by code_simp
  have v1: "stats (run example_classes (getStats_sent example_classes connected_service)
              (events reply_environment)
            \<lparr>stats := Some (command_getStats example_classes
               (heap (run example_classes (getStats_sent example_classes connected_service)
                  (events reply_environment)) (nextRef connected_service)))\<rparr>)
          = Some [''[MSG:Heap 27000]'']"
    by code_simp
  have v2: "commands (run example_classes (getStats_sent example_classes connected_service)
              (events reply_environment)) = []"
    by code_simp
  note sending = connect_when_open[OF o(1), THEN conjunct2, THEN conjunct1, THEN mp,
      OF conjI[OF o(2) o(3)]]
  note t = sending[of example_classes reply_environment,
      THEN conjunct2, THEN conjunct2, THEN conjunct2, THEN conjunct2, THEN conjunct1,
      rule_format, of "events reply_environment" "[]"]
  from t a have "connect example_classes (connected_service, reply_environment)
      = Some (Inr (status connected_service),
           ((run example_classes (getStats_sent example_classes connected_service)
               (events reply_environment))
              \<lparr>stats := Some (command_getStats example_classes
                 (heap (run example_classes (getStats_sent example_classes connected_service)
                    (events reply_environment)) (nextRef connected_service)))\<rparr>,
            reply_environment\<lparr>events := []\<rparr>))"
    by simp
  with v1 v2 o(4) have r1: "map_option (\<lambda>(r, s', env'). (r, stats s', commands s', events env'))
       (connect example_classes (connected_service, reply_environment))
     = Some (Inr CONNECTED, Some [''[MSG:Heap 27000]''], [], [])"
    by simp
  note q = sending[of example_classes quiet_environment,
      THEN conjunct2, THEN conjunct2, THEN conjunct2, THEN conjunct2, THEN conjunct2,
      THEN conjunct2, THEN conjunct2, THEN conjunct2, THEN conjunct1, rule_format, of 1000]
  from q f e(1) have r2: "connect example_classes (connected_service, quiet_environment) = None"
    by simp
  note i = sending[of example_classes idle_environment,
      THEN conjunct2, THEN conjunct2, THEN conjunct2, THEN conjunct2, THEN conjunct2,
      THEN conjunct2, THEN conjunct2, THEN conjunct2, THEN conjunct2, rule_format, of 5000]
  from i f e(2) have "connect example_classes (connected_service, idle_environment)
      = Some (Inr (status connected_service),
           (elapse (getStats_sent example_classes connected_service) 5000,
            idle_environment\<lparr>events := []\<rparr>)) \<and>
      stats (elapse (getStats_sent example_classes connected_service) 5000) = None"
    by simp
  with o(4) have r3: "map_option (\<lambda>(r, s', env'). (r, stats s', events env'))
       (connect example_classes (connected_service, idle_environment))
     = Some (Inr CONNECTED, None, [])"
    by simp
  have k: "isOpen (serialPort (connected_service\<lparr>stats := Some []\<rparr>))"
    "stats (connected_service\<lparr>stats := Some []\<rparr>) \<noteq> None"
    "status (connected_service\<lparr>stats := Some []\<rparr>) = CONNECTED"
    using o by simp_all
  from connect_when_open[OF k(1), of example_classes reply_environment, THEN conjunct1] k(2,3)
  have r4: "connect example_classes (connected_service\<lparr>stats := Some []\<rparr>, reply_environment)
     = Some (Inr CONNECTED, (connected_service\<lparr>stats := Some []\<rparr>, reply_environment))"
    by simp
  from o(1,2,3) f a r1 e(1) r2 e(2) r3 k(1,2) r4 show ?thesis by blast
qed

section \<open>Properties of the command queue\<close>

lemma settled_run_onDone:
  "settled (run_onDone s cb)
     = (case cb of
          None \<Rightarrow> settled s
        | Some q \<Rightarrow> if map_of (settled s) q = None then settled s @ [(q, Resolved)] else settled s)"
  by (simp add: run_onDone_def settle_def clearTimeout_def promise_state_def split: option.splits)

lemma queue_view_onData_line:
  "queue_view (onData_line K s i) = deliver K (take i (buffer s)) (queue_view s)"
proof (cases "commands s")
  case Nil
  then show ?thesis using onData_line_empty[OF Nil, of K i] by (simp add: queue_view_def)
next
  case (Cons h rest)
  obtain st v called where
    a: "appendLine K (state (heap s h)) (variant (heap s h)) (take i (buffer s)) = (st, v, called)"
    by (cases "appendLine K (state (heap s h)) (variant (heap s h)) (take i (buffer s))")
  show ?thesis
    using onData_line_head[OF Cons a] Cons a
    by (simp add: queue_view_def settled_run_onDone)
qed

lemma onData_loop_delivers:
  "\<exists>ls. concat (map (\<lambda>l. l @ [LF]) ls) @ buffer (onData_loop K s) = buffer s \<and>
        (\<forall>l \<in> set ls. LF \<notin> set l) \<and> LF \<notin> set (buffer (onData_loop K s)) \<and>
        queue_view (onData_loop K s) = fold (deliver K) ls (queue_view s)"
proof (induction K s rule: onData_loop.induct)
  case (1 K s)
  show ?case
  proof (cases "0 \<le> indexOf (buffer s) [LF]")
    case True
    define i where "i = nat (indexOf (buffer s) [LF])"
    define s' where "s' = onData_line K s i"
    from "1.IH"[OF refl True] obtain ls where ls:
      "concat (map (\<lambda>l. l @ [LF]) ls) @ buffer (onData_loop K s') = buffer s'"
      "\<forall>l \<in> set ls. LF \<notin> set l" "LF \<notin> set (buffer (onData_loop K s'))"
      "queue_view (onData_loop K s') = fold (deliver K) ls (queue_view s')"
      unfolding s'_def i_def by blast
    have eq: "onData_loop K s = onData_loop K s'"
      unfolding s'_def i_def by (rule onData_loop_unfold_found[OF True])
    have line: "LF \<notin> set (take i (buffer s))"
      unfolding i_def by (rule indexOf_char_found(3)[OF True])
    have whole: "take i (buffer s) @ [LF] @ drop (i + 1) (buffer s) = buffer s"
      unfolding i_def by (rule split_at_newline[OF True])
    let ?ls = "take i (buffer s) # ls"
    have "concat (map (\<lambda>l. l @ [LF]) ?ls) @ buffer (onData_loop K s) = buffer s"
    proof -
      have "concat (map (\<lambda>l. l @ [LF]) ?ls) @ buffer (onData_loop K s)
            = take i (buffer s) @ [LF] @ (concat (map (\<lambda>l. l @ [LF]) ls) @ buffer (onData_loop K s'))"
        by (simp add: eq)
      also have "\<dots> = take i (buffer s) @ [LF] @ drop (i + 1) (buffer s)"
        by (simp only: ls(1)) (simp add: s'_def)
      finally show ?thesis using whole by simp
    qed
    moreover have "\<forall>l \<in> set ?ls. LF \<notin> set l" using ls(2) line by simp
    moreover have "LF \<notin> set (buffer (onData_loop K s))" using ls(3) by (simp add: eq)
    moreover have "queue_view (onData_loop K s) = fold (deliver K) ?ls (queue_view s)"
      using ls(4) by (simp add: eq s'_def queue_view_onData_line)
    ultimately show ?thesis by blast
  next
    case False
    then have "onData_loop K s = s" by (rule onData_loop_unfold_none)
    moreover have "LF \<notin> set (buffer s)" using False by (rule indexOf_char_absent)
    ultimately have "concat (map (\<lambda>l. l @ [LF]) []) @ buffer (onData_loop K s) = buffer s \<and>
        (\<forall>l \<in> set []. LF \<notin> set l) \<and> LF \<notin> set (buffer (onData_loop K s)) \<and>
        queue_view (onData_loop K s) = fold (deliver K) [] (queue_view s)"
      by simp
    then show ?thesis by blast
  qed
qed

lemma feed_delivers:
  assumes "\<not> xmodemMode s" and "LF \<notin> set (buffer s)"
  shows "\<exists>ls. concat (map (\<lambda>l. l @ [LF]) ls) @ buffer (feed K s chunks)
             = buffer s @ concat (map remove_CR (map toString chunks)) \<and>
        (\<forall>l \<in> set ls. LF \<notin> set l) \<and> LF \<notin> set (buffer (feed K s chunks)) \<and>
        queue_view (feed K s chunks) = fold (deliver K) ls (queue_view s)"
  using assms
proof (induction chunks arbitrary: s)
  case Nil
  have "concat (map (\<lambda>l. l @ [LF]) []) @ buffer (feed K s [])
             = buffer s @ concat (map remove_CR (map toString [])) \<and>
        (\<forall>l \<in> set []. LF \<notin> set l) \<and> LF \<notin> set (buffer (feed K s [])) \<and>
        queue_view (feed K s []) = fold (deliver K) [] (queue_view s)"
    using Nil by simp
  then show ?case by blast
next
  case (Cons d chunks)
  define s0 where "s0 = s\<lparr>buffer := buffer s @ remove_CR (toString d)\<rparr>"
  have od: "onData K s d = onData_loop K s0" using Cons.prems(1) by (simp add: onData_def s0_def)
  from onData_loop_delivers[of K s0] obtain ls1 where 1:
    "concat (map (\<lambda>l. l @ [LF]) ls1) @ buffer (onData K s d) = buffer s @ remove_CR (toString d)"
    "\<forall>l \<in> set ls1. LF \<notin> set l" "LF \<notin> set (buffer (onData K s d))"
    "queue_view (onData K s d) = fold (deliver K) ls1 (queue_view s)"
    unfolding od by (auto simp: s0_def queue_view_def)
  have "\<not> xmodemMode (onData K s d)" using Cons.prems(1) by simp
  from Cons.IH[OF this 1(3)] obtain ls2 where 2:
    "concat (map (\<lambda>l. l @ [LF]) ls2) @ buffer (feed K (onData K s d) chunks)
       = buffer (onData K s d) @ concat (map remove_CR (map toString chunks))"
    "\<forall>l \<in> set ls2. LF \<notin> set l" "LF \<notin> set (buffer (feed K (onData K s d) chunks))"
    "queue_view (feed K (onData K s d) chunks) = fold (deliver K) ls2 (queue_view (onData K s d))"
    by blast
  let ?ls = "ls1 @ ls2"
  have "concat (map (\<lambda>l. l @ [LF]) ?ls) @ buffer (feed K s (d # chunks))
          = buffer s @ concat (map remove_CR (map toString (d # chunks)))"
  proof -
    have "concat (map (\<lambda>l. l @ [LF]) ?ls) @ buffer (feed K s (d # chunks))
       = concat (map (\<lambda>l. l @ [LF]) ls1) @
         (concat (map (\<lambda>l. l @ [LF]) ls2) @ buffer (feed K (onData K s d) chunks))"
      by simp
    also have "\<dots> = (concat (map (\<lambda>l. l @ [LF]) ls1) @ buffer (onData K s d)) @
                     concat (map remove_CR (map toString chunks))"
      by (simp only: 2(1)) simp
    also have "\<dots> = buffer s @ concat (map remove_CR (map toString (d # chunks)))"
      by (simp only: 1(1)) simp
    finally show ?thesis .
  qed
  moreover have "\<forall>l \<in> set ?ls. LF \<notin> set l" using 1(2) 2(2) by auto
  moreover have "LF \<notin> set (buffer (feed K s (d # chunks)))" using 2(3) by simp
  moreover have "queue_view (feed K s (d # chunks)) = fold (deliver K) ?ls (queue_view s)"
    using 1(4) 2(4) by simp
  ultimately show ?case by blast
qed

lemma line_prefix_unique:
  assumes "c \<notin> set l" and "c \<notin> set l'" and "l @ c # x = l' @ c # x'"
  shows "l = l' \<and> x = x'"
  using assms
proof (induction l arbitrary: l')
  case Nil
  then show ?case by (cases l') auto
next
  case (Cons a l)
  then show ?case by (cases l') auto
qed

lemma lines_unique:
  assumes "\<forall>l \<in> set ls. LF \<notin> set l" and "\<forall>l \<in> set ls'. LF \<notin> set l"
      and "LF \<notin> set r" and "LF \<notin> set r'"
      and "concat (map (\<lambda>l. l @ [LF]) ls) @ r = concat (map (\<lambda>l. l @ [LF]) ls') @ r'"
  shows "ls = ls' \<and> r = r'"
  using assms
proof (induction ls arbitrary: ls')
  case Nil
  show ?case
  proof (cases ls')
    case Nil
    with Nil.prems(5) show ?thesis by simp
  next
    case (Cons l' ls1')
    have "r = l' @ LF # (concat (map (\<lambda>l. l @ [LF]) ls1') @ r')"
      using Nil.prems(5) unfolding Cons by simp
    then have "set r = set (l' @ LF # (concat (map (\<lambda>l. l @ [LF]) ls1') @ r'))"
      by (rule arg_cong)
    then have "LF \<in> set r" by simp
    with Nil.prems(3) show ?thesis by simp
  qed
next
  case (Cons l ls)
  show ?case
  proof (cases ls')
    case Nil
    have "l @ LF # (concat (map (\<lambda>l. l @ [LF]) ls) @ r) = r'"
      using Cons.prems(5) unfolding Nil by simp
    then have "set (l @ LF # (concat (map (\<lambda>l. l @ [LF]) ls) @ r)) = set r'"
      by (rule arg_cong)
    then have "LF \<in> set r'" by auto
    with Cons.prems(4) show ?thesis by simp
  next
    case (Cons l' ls1')
    have e: "l @ LF # (concat (map (\<lambda>l. l @ [LF]) ls) @ r)
             = l' @ LF # (concat (map (\<lambda>l. l @ [LF]) ls1') @ r')"
      using Cons.prems(5) unfolding Cons by simp
    have "LF \<notin> set l" "LF \<notin> set l'" using Cons.prems(1,2) unfolding Cons by simp_all
    from line_prefix_unique[OF this e]
    have h: "l = l'" "concat (map (\<lambda>l. l @ [LF]) ls) @ r = concat (map (\<lambda>l. l @ [LF]) ls1') @ r'"
      by simp_all
    have p1: "\<forall>l \<in> set ls. LF \<notin> set l" using Cons.prems(1) by simp
    have p2: "\<forall>l \<in> set ls1'. LF \<notin> set l" using Cons.prems(2) unfolding Cons by simp
    have "ls = ls1' \<and> r = r'"
      using p1 p2 Cons.prems(3,4) h(2) by (rule Cons.IH)
    with h(1) Cons show ?thesis by simp
  qed
qed


lemma deliver_completes:
  assumes "completes_with K (state (hp c)) (variant (hp c)) L" and "c \<notin> set rest"
      and "onDone (hp c) = Some p" and "map_of stl p = None"
  shows "\<exists>hp'. fold (deliver K) L (hp, c # rest, stl) = (hp', rest, stl @ [(p, Resolved)]) \<and>
              (\<forall>r. r \<noteq> c \<longrightarrow> hp' r = hp r)"
  using assms(1,3)
proof (induction L arbitrary: hp)
  case Nil
  then show ?case by simp
next
  case (Cons l ls)
  obtain st v called where
    a: "appendLine K (state (hp c)) (variant (hp c)) l = (st, v, called)"
    by (cases "appendLine K (state (hp c)) (variant (hp c)) l")
  define hp1 where "hp1 = hp(c := (hp c)\<lparr>state := st, variant := v\<rparr>)"
  show ?case
  proof (cases "ls = []")
    case True
    with Cons.prems(1) a have "called" "st = DONE" by simp_all
    then have "fold (deliver K) (l # ls) (hp, c # rest, stl) = (hp1, rest, stl @ [(p, Resolved)])"
      using True a Cons.prems(2) assms(4) by (simp add: hp1_def)
    moreover have "\<forall>r. r \<noteq> c \<longrightarrow> hp1 r = hp r" by (simp add: hp1_def)
    ultimately show ?thesis by blast
  next
    case False
    with Cons.prems(1) a have n: "\<not> called" "st \<noteq> DONE" "completes_with K st v ls" by simp_all
    have d: "deliver K l (hp, c # rest, stl) = (hp1, c # rest, stl)"
      using a n(1,2) by (simp add: hp1_def)
    have "completes_with K (state (hp1 c)) (variant (hp1 c)) ls" using n(3) by (simp add: hp1_def)
    moreover have "onDone (hp1 c) = Some p" using Cons.prems(2) by (simp add: hp1_def)
    ultimately obtain hp' where
      h: "fold (deliver K) ls (hp1, c # rest, stl) = (hp', rest, stl @ [(p, Resolved)])"
         "\<forall>r. r \<noteq> c \<longrightarrow> hp' r = hp1 r"
      using Cons.IH[of hp1] by blast
    have "fold (deliver K) (l # ls) (hp, c # rest, stl) = (hp', rest, stl @ [(p, Resolved)])"
      using d h(1) by simp
    moreover have "\<forall>r. r \<noteq> c \<longrightarrow> hp' r = hp r" using h(2) by (simp add: hp1_def)
    ultimately show ?thesis by blast
  qed
qed

lemma deliver_all:
  assumes "distinct (map fst jobs)" and "distinct (map (\<lambda>j. fst (snd j)) jobs)"
      and "\<forall>j \<in> set jobs. onDone (hp (fst j)) = Some (fst (snd j)) \<and> map_of stl (fst (snd j)) = None \<and>
             completes_with K (state (hp (fst j))) (variant (hp (fst j))) (snd (snd j))"
  shows "\<exists>hp'. fold (deliver K) (concat (map (\<lambda>j. snd (snd j)) jobs)) (hp, map fst jobs, stl)
               = (hp', [], stl @ map (\<lambda>j. (fst (snd j), Resolved)) jobs)"
  using assms
proof (induction jobs arbitrary: hp stl)
  case Nil
  then show ?case by simp
next
  case (Cons j jobs)
  obtain c p L where j: "j = (c, p, L)" by (cases j)
  have c: "c \<notin> set (map fst jobs)" and dc: "distinct (map fst jobs)"
    using Cons.prems(1) by (simp_all add: j)
  have pp: "p \<notin> set (map (\<lambda>j. fst (snd j)) jobs)" and dp: "distinct (map (\<lambda>j. fst (snd j)) jobs)"
    using Cons.prems(2) by (simp_all add: j)
  have first: "onDone (hp c) = Some p" "map_of stl p = None"
    "completes_with K (state (hp c)) (variant (hp c)) L"
    using Cons.prems(3) by (simp_all add: j)
  from deliver_completes[of K hp c L "map fst jobs" p stl, OF first(3) c first(1) first(2)]
  obtain hp1 where
    h1: "fold (deliver K) L (hp, c # map fst jobs, stl) = (hp1, map fst jobs, stl @ [(p, Resolved)])"
        "\<forall>r. r \<noteq> c \<longrightarrow> hp1 r = hp r"
    by blast
  have rest: "\<forall>j' \<in> set jobs. onDone (hp1 (fst j')) = Some (fst (snd j')) \<and>
             map_of (stl @ [(p, Resolved)]) (fst (snd j')) = None \<and>
             completes_with K (state (hp1 (fst j'))) (variant (hp1 (fst j'))) (snd (snd j'))"
  proof
    fix j' assume m: "j' \<in> set jobs"
    then have "fst j' \<noteq> c" using c by auto
    then have same: "hp1 (fst j') = hp (fst j')" using h1(2) by simp
    have "fst (snd j') \<noteq> p" using m pp by auto
    moreover have "onDone (hp (fst j')) = Some (fst (snd j')) \<and> map_of stl (fst (snd j')) = None \<and>
             completes_with K (state (hp (fst j'))) (variant (hp (fst j'))) (snd (snd j'))"
      using Cons.prems(3) m by simp
    ultimately show "onDone (hp1 (fst j')) = Some (fst (snd j')) \<and>
             map_of (stl @ [(p, Resolved)]) (fst (snd j')) = None \<and>
             completes_with K (state (hp1 (fst j'))) (variant (hp1 (fst j'))) (snd (snd j'))"
      by (simp add: same map_add_def)
  qed
  from Cons.IH[OF dc dp rest] obtain hp' where
    h2: "fold (deliver K) (concat (map (\<lambda>j. snd (snd j)) jobs)) (hp1, map fst jobs, stl @ [(p, Resolved)])
          = (hp', [], (stl @ [(p, Resolved)]) @ map (\<lambda>j. (fst (snd j), Resolved)) jobs)"
    by blast
  have "fold (deliver K) (concat (map (\<lambda>j. snd (snd j)) (j # jobs))) (hp, map fst (j # jobs), stl)
          = (hp', [], stl @ map (\<lambda>j. (fst (snd j), Resolved)) (j # jobs))"
    using h1(1) h2 by (simp add: j)
  then show ?case by blast
qed

lemma sendAll_Cons:
  "sendAll s (c # cs)
     = (npromises s # fst (sendAll (snd (send s c 0)) cs), snd (sendAll (snd (send s c 0)) cs))"
  by (simp add: case_prod_unfold)

lemma fst_sendAll: "fst (sendAll s cs) = [npromises s ..< npromises s + length cs]"
proof (induction cs arbitrary: s)
  case Nil
  then show ?case by simp
next
  case (Cons c cs)
  have "[npromises s ..< npromises s + length (c # cs)]
        = npromises s # [Suc (npromises s) ..< Suc (npromises s) + length cs]"
    by (simp add: upt_conv_Cons del: upt_Suc)
  also have "\<dots> = npromises s # fst (sendAll (snd (send s c 0)) cs)"
    using Cons[of "snd (send s c 0)"] by simp
  finally show ?case by (simp only: sendAll_Cons fst_conv)
qed

lemma sendAll_frame [simp]:
  "commands (snd (sendAll s cs)) = commands s @ cs"
  "settled (snd (sendAll s cs)) = settled s"
  "buffer (snd (sendAll s cs)) = buffer s"
  "xmodemMode (snd (sendAll s cs)) = xmodemMode s"
  by (induction cs arbitrary: s) (simp_all add: sendAll_Cons del: sendAll.simps(2))

lemma heap_sendAll_other:
  assumes "r \<notin> set cs"
  shows "heap (snd (sendAll s cs)) r = heap s r"
  using assms
proof (induction cs arbitrary: s)
  case Nil
  then show ?case by simp
next
  case (Cons c cs)
  then have "heap (snd (sendAll (snd (send s c 0)) cs)) r = heap (snd (send s c 0)) r" by simp
  with Cons.prems show ?case by (simp add: sendAll_Cons del: sendAll.simps(2))
qed

lemma heap_sendAll:
  assumes "distinct cs" and "i < length cs"
  shows "heap (snd (sendAll s cs)) (cs ! i) = (heap s (cs ! i))\<lparr>onDone := Some (npromises s + i)\<rparr>"
  using assms
proof (induction cs arbitrary: s i)
  case Nil
  then show ?case by simp
next
  case (Cons c cs)
  define s1 where "s1 = snd (send s c 0)"
  have e: "snd (sendAll s (c # cs)) = snd (sendAll s1 cs)"
    by (simp add: sendAll_Cons s1_def del: sendAll.simps(2))
  show ?case
  proof (cases i)
    case 0
    have "heap (snd (sendAll s1 cs)) c = heap s1 c"
      using Cons.prems(1) by (intro heap_sendAll_other) simp
    with 0 show ?thesis unfolding e by (simp add: s1_def)
  next
    case (Suc k)
    with Cons.prems have k: "k < length cs" "distinct cs" "cs ! k \<noteq> c" by auto
    from Cons.IH[OF k(2) k(1), of s1]
    have "heap (snd (sendAll s1 cs)) (cs ! k) = (heap s1 (cs ! k))\<lparr>onDone := Some (npromises s1 + k)\<rparr>" .
    with Suc k(3) show ?thesis unfolding e by (simp add: s1_def)
  qed
qed


lemma sent_commands_resolve_in_order:
  assumes fresh: "fresh_promises s" and empty: "commands s = []" "buffer s = []"
      and text_mode: "\<not> xmodemMode s"
      and dist: "distinct cs" and len: "length Ls = length cs"
      and expects: "\<forall>n < length cs.
             completes_with K (state (heap s (cs ! n))) (variant (heap s (cs ! n))) (Ls ! n)"
      and clean: "\<forall>l \<in> set (concat Ls). LF \<notin> set l"
      and data: "remove_CR (concat (map toString chunks)) = concat (map (\<lambda>l. l @ [LF]) (concat Ls))"
  shows "settled (feed K (snd (sendAll s cs)) chunks)
           = settled s @ map (\<lambda>p. (p, Resolved)) (fst (sendAll s cs))"
    and "commands (feed K (snd (sendAll s cs)) chunks) = []"
proof -
  define s1 where "s1 = snd (sendAll s cs)"
  define ps where "ps = [npromises s ..< npromises s + length cs]"
  define jobs where "jobs = zip cs (zip ps Ls)"
  have lps: "length ps = length cs" by (simp add: ps_def)
  have m1: "map fst jobs = cs" using len lps by (simp add: jobs_def)
  have m2: "map (\<lambda>j. fst (snd j)) jobs = ps"
  proof -
    have "map (\<lambda>j. fst (snd j)) jobs = map fst (map snd jobs)" by simp
    also have "\<dots> = map fst (zip ps Ls)" using len lps by (simp add: jobs_def)
    also have "\<dots> = ps" using len lps by simp
    finally show ?thesis .
  qed
  have m3: "map (\<lambda>j. snd (snd j)) jobs = Ls"
  proof -
    have "map (\<lambda>j. snd (snd j)) jobs = map snd (map snd jobs)" by simp
    also have "\<dots> = map snd (zip ps Ls)" using len lps by (simp add: jobs_def)
    also have "\<dots> = Ls" using len lps by simp
    finally show ?thesis .
  qed
  have view1: "queue_view s1 = (heap s1, cs, settled s)"
    using empty(1) by (simp add: queue_view_def s1_def)
  have cond: "\<forall>j \<in> set jobs. onDone (heap s1 (fst j)) = Some (fst (snd j)) \<and>
             map_of (settled s) (fst (snd j)) = None \<and>
             completes_with K (state (heap s1 (fst j))) (variant (heap s1 (fst j))) (snd (snd j))"
  proof
    fix j assume "j \<in> set jobs"
    then obtain n where n: "n < length jobs" "j = jobs ! n" by (auto simp: in_set_conv_nth)
    then have nl: "n < length cs" using len lps by (simp add: jobs_def)
    have j: "j = (cs ! n, ps ! n, Ls ! n)" using n nl len lps by (simp add: jobs_def)
    have pn: "ps ! n = npromises s + n" using nl by (simp add: ps_def)
    have hp: "heap s1 (cs ! n) = (heap s (cs ! n))\<lparr>onDone := Some (npromises s + n)\<rparr>"
      unfolding s1_def using dist nl by (rule heap_sendAll)
    have "npromises s + n \<notin> fst ` set (settled s)"
      using fresh by (auto simp: fresh_promises_def)
    then have "map_of (settled s) (npromises s + n) = None" by (simp add: map_of_eq_None_iff)
    moreover have "completes_with K (state (heap s (cs ! n))) (variant (heap s (cs ! n))) (Ls ! n)"
      using expects nl by simp
    ultimately show "onDone (heap s1 (fst j)) = Some (fst (snd j)) \<and>
             map_of (settled s) (fst (snd j)) = None \<and>
             completes_with K (state (heap s1 (fst j))) (variant (heap s1 (fst j))) (snd (snd j))"
      by (simp add: j pn hp)
  qed
  have d1: "distinct (map fst jobs)" using dist by (simp only: m1)
  have d2: "distinct (map (\<lambda>j. fst (snd j)) jobs)" by (simp only: m2) (simp add: ps_def)
  from deliver_all[of jobs "heap s1" "settled s" K, OF d1 d2 cond] obtain hp' where
    "fold (deliver K) (concat (map (\<lambda>j. snd (snd j)) jobs)) (heap s1, map fst jobs, settled s)
       = (hp', [], settled s @ map (\<lambda>j. (fst (snd j), Resolved)) jobs)"
    by blast
  moreover have "map (\<lambda>j. (fst (snd j), Resolved)) jobs = map (\<lambda>p. (p, Resolved)) ps"
  proof -
    have "map (\<lambda>j. (fst (snd j), Resolved)) jobs
          = map (\<lambda>p. (p, Resolved)) (map (\<lambda>j. fst (snd j)) jobs)"
      by simp
    then show ?thesis by (simp only: m2)
  qed
  ultimately have all: "fold (deliver K) (concat Ls) (queue_view s1)
       = (hp', [], settled s @ map (\<lambda>p. (p, Resolved)) ps)"
    by (simp only: m1 m3 view1)
  have x1: "\<not> xmodemMode s1" "LF \<notin> set (buffer s1)" "buffer s1 = []"
    using text_mode empty(2) by (simp_all add: s1_def)
  from feed_delivers[OF x1(1,2), of K chunks] obtain ls where ls:
    "concat (map (\<lambda>l. l @ [LF]) ls) @ buffer (feed K s1 chunks)
       = buffer s1 @ concat (map remove_CR (map toString chunks))"
    "\<forall>l \<in> set ls. LF \<notin> set l" "LF \<notin> set (buffer (feed K s1 chunks))"
    "queue_view (feed K s1 chunks) = fold (deliver K) ls (queue_view s1)"
    by blast
  have "concat (map remove_CR (map toString chunks)) = remove_CR (concat (map toString chunks))"
    by (simp add: remove_CR_concat)
  also have "\<dots> = concat (map (\<lambda>l. l @ [LF]) (concat Ls))"
    by (rule data)
  finally have "concat (map (\<lambda>l. l @ [LF]) ls) @ buffer (feed K s1 chunks)
       = concat (map (\<lambda>l. l @ [LF]) (concat Ls)) @ []"
    using ls(1) x1(3) by simp
  moreover note clean
  moreover have "LF \<notin> set ([] :: string)" by simp
  ultimately have "ls = concat Ls \<and> buffer (feed K s1 chunks) = []"
    using ls(2,3) by (intro lines_unique)
  with ls(4) all have "queue_view (feed K s1 chunks)
       = (hp', [], settled s @ map (\<lambda>p. (p, Resolved)) ps)"
    by simp
  then show "settled (feed K (snd (sendAll s cs)) chunks)
           = settled s @ map (\<lambda>p. (p, Resolved)) (fst (sendAll s cs))"
    and "commands (feed K (snd (sendAll s cs)) chunks) = []"
    by (simp_all add: queue_view_def s1_def ps_def fst_sendAll)
qed


text \<open>
  C2. In every round of the loop of \<open>onData\<close> the emitted line goes to the command at
  the head of the queue and to no other: with an empty queue no command object changes;
  otherwise every object but the head is as before, the head has the state and the fields
  its \<open>appendLine\<close> answers for the line, and the queue loses its head exactly when the
  head's state is \<open>DONE\<close> afterwards. Hence, when commands are sent with no timeout to a
  service with an empty queue, and the chunks fed afterwards, each decoded on its own,
  carry in order exactly the lines each command expects, the promises are resolved in the
  order of sending, and the queue is empty again.
\<close>

theorem head_of_queue:
  "(commands s = [] \<longrightarrow>
      heap (onData_line K s i) = heap s \<and> commands (onData_line K s i) = []) \<and>
   (\<forall>h rest. commands s = h # rest \<longrightarrow>
      (\<forall>r. r \<noteq> h \<longrightarrow> heap (onData_line K s i) r = heap s r) \<and>
      (state (heap (onData_line K s i) h), variant (heap (onData_line K s i) h))
        = (case appendLine K (state (heap s h)) (variant (heap s h)) (take i (buffer s)) of
             (st, v, called) \<Rightarrow> (st, v)) \<and>
      commands (onData_line K s i)
        = (if state (heap (onData_line K s i) h) = DONE then rest else h # rest)) \<and>
   (fresh_promises s \<and> commands s = [] \<and> buffer s = [] \<and> \<not> xmodemMode s \<and>
    distinct cs \<and> length Ls = length cs \<and>
    (\<forall>n < length cs.
       completes_with K (state (heap s (cs ! n))) (variant (heap s (cs ! n))) (Ls ! n)) \<and>
    (\<forall>l \<in> set (concat Ls). LF \<notin> set l) \<and>
    remove_CR (concat (map toString chunks)) = concat (map (\<lambda>l. l @ [LF]) (concat Ls)) \<longrightarrow>
      settled (feed K (snd (sendAll s cs)) chunks)
        = settled s @ map (\<lambda>p. (p, Resolved)) (fst (sendAll s cs)) \<and>
      commands (feed K (snd (sendAll s cs)) chunks) = [] \<and>
      fst (sendAll s cs) = [npromises s ..< npromises s + length cs])"
proof -
  have 1: "heap (onData_line K s i) = heap s \<and> commands (onData_line K s i) = []"
    if "commands s = []"
    using onData_line_empty(1,2)[OF that, of K i] by simp
  have 2: "(\<forall>r. r \<noteq> h \<longrightarrow> heap (onData_line K s i) r = heap s r) \<and>
      (state (heap (onData_line K s i) h), variant (heap (onData_line K s i) h))
        = (case appendLine K (state (heap s h)) (variant (heap s h)) (take i (buffer s)) of
             (st, v, called) \<Rightarrow> (st, v)) \<and>
      commands (onData_line K s i)
        = (if state (heap (onData_line K s i) h) = DONE then rest else h # rest)"
    if c: "commands s = h # rest" for h rest
  proof -
    obtain st v called where
      a: "appendLine K (state (heap s h)) (variant (heap s h)) (take i (buffer s)) = (st, v, called)"
      by (cases "appendLine K (state (heap s h)) (variant (heap s h)) (take i (buffer s))")
    from onData_line_head(1,2)[OF c a] a show ?thesis by simp
  qed
  have 3: "settled (feed K (snd (sendAll s cs)) chunks)
        = settled s @ map (\<lambda>p. (p, Resolved)) (fst (sendAll s cs)) \<and>
      commands (feed K (snd (sendAll s cs)) chunks) = [] \<and>
      fst (sendAll s cs) = [npromises s ..< npromises s + length cs]"
    if "fresh_promises s" "commands s = []" "buffer s = []" "\<not> xmodemMode s"
      "distinct cs" "length Ls = length cs"
      "\<forall>n < length cs.
         completes_with K (state (heap s (cs ! n))) (variant (heap s (cs ! n))) (Ls ! n)"
      "\<forall>l \<in> set (concat Ls). LF \<notin> set l"
      "remove_CR (concat (map toString chunks)) = concat (map (\<lambda>l. l @ [LF]) (concat Ls))"
    using sent_commands_resolve_in_order[OF that] fst_sendAll[of s cs] by simp
  from 1 2 3 show ?thesis by blast
qed

theorem head_of_queue_witness:
  "fresh_promises example_service \<and> commands example_service = [] \<and>
   buffer example_service = [] \<and> \<not> xmodemMode example_service \<and>
   completes_with example_classes PENDING [] [''[MSG:INFO]'', ''ok''] \<and>
   completes_with example_classes PENDING [] [''ok''] \<and>
   remove_CR (concat (map toString two_chunks)) = concat (map (\<lambda>l. l @ [LF]) (concat two_lines)) \<and>
   fst (sendAll example_service [0, 1]) = [0, 1] \<and>
   commands (snd (sendAll example_service [0, 1])) = [0, 1] \<and>
   settled (feed example_classes (snd (sendAll example_service [0, 1])) two_chunks)
     = [(0, Resolved), (1, Resolved)] \<and>
   commands (feed example_classes (snd (sendAll example_service [0, 1])) two_chunks) = []"
proof -
  have f: "fresh_promises example_service"
    by (simp add: fresh_promises_def example_service_def constructor_def example_runtime_def)
  have e: "commands example_service = []" "buffer example_service = []"
    "\<not> xmodemMode example_service" "npromises example_service = 0" "settled example_service = []"
    by (simp_all add: example_service_def constructor_def example_runtime_def)
  have c1: "completes_with example_classes PENDING [] [''[MSG:INFO]'', ''ok'']"
    and c2: "completes_with example_classes PENDING [] [''ok'']"
    by (simp_all add: example_classes_def)
  have h: "state (heap example_service r) = PENDING" "variant (heap example_service r) = []" for r
    by (simp_all add: example_service_def constructor_def example_runtime_def)
  have ex: "\<forall>n < length [0, 1 :: nat].
       completes_with example_classes (state (heap example_service ([0, 1] ! n)))
         (variant (heap example_service ([0, 1] ! n))) (two_lines ! n)"
    using c1 c2 by (simp add: h two_lines_def less_Suc_eq)
  have cl: "\<forall>l \<in> set (concat two_lines). LF \<notin> set l"
    by (simp add: two_lines_def LF_def)
  have d: "remove_CR (concat (map toString two_chunks)) = concat (map (\<lambda>l. l @ [LF]) (concat two_lines))"
    by (simp add: two_chunks_def two_lines_def remove_CR_def toString_def LF_def CR_def)
  have cm: "commands (snd (sendAll example_service [0, 1])) = [0, 1]"
    using e(1) by (simp del: sendAll.simps)
  have ps: "fst (sendAll example_service [0, 1]) = [0, 1]"
    by (simp add: fst_sendAll e(4) del: sendAll.simps)
  have d01: "distinct [0, 1 :: nat]" "length two_lines = length [0, 1 :: nat]"
    by (simp_all add: two_lines_def)
  from head_of_queue[of example_service example_classes _ "[0, 1]" two_lines two_chunks]
    f e(1,2,3) d01 ex cl d
  have r: "settled (feed example_classes (snd (sendAll example_service [0, 1])) two_chunks)
        = settled example_service @ map (\<lambda>p. (p, Resolved)) (fst (sendAll example_service [0, 1]))"
    "commands (feed example_classes (snd (sendAll example_service [0, 1])) two_chunks) = []"
    by blast+
  from r(1) have r1: "settled (feed example_classes (snd (sendAll example_service [0, 1])) two_chunks)
     = [(0, Resolved), (1, Resolved)]"
    by (simp only: ps e(5)) simp
  from f e(1,2,3) c1 c2 d ps cm r1 r(2) show ?thesis by blast
qed

end
